theory Spec2Isabelle
  imports Main "HOL-Library.Word" "HOL-Library.Multiset"
begin

unbundle bit_operations_syntax

section \<open>Data model\<close>

text \<open>
  The package works on \<^verbatim>\<open>uint64\<close> values and on bytes. A card is the Go array
  \<^verbatim>\<open>[2]uint64\<close>: element 0 is the DBF ID, element 1 the count; it is modelled as a pair,
  \<open>fst\<close> being \<^verbatim>\<open>card[0]\<close> and \<open>snd\<close> being \<^verbatim>\<open>card[1]\<close>.
  \<^verbatim>\<open>Format\<close> is a named \<^verbatim>\<open>uint64\<close>.
\<close>

type_synonym u64 = "64 word"
type_synonym byte = "8 word"
type_synonym card = "u64 \<times> u64"

definition Version :: u64 where
  "Version = 1"

definition FormatWild :: u64 where
  "FormatWild = 1"

definition FormatStandard :: u64 where
  "FormatStandard = 2"

record Deck =
  Format :: u64
  Heroes :: "u64 list"
  Cards :: "card list"

text \<open>
  Every error value that \<^verbatim>\<open>Decode\<close> and \<^verbatim>\<open>Encode\<close> can return.
  \<open>EOF\<close>, \<open>ErrUnexpectedEOF\<close> come from package \<^verbatim>\<open>io\<close>, \<open>CorruptInputError\<close> from
  \<^verbatim>\<open>encoding/base64\<close> (its offset is not modelled), \<open>ErrOverflow\<close> from
  \<^verbatim>\<open>encoding/binary\<close>. The next three are the \<^verbatim>\<open>fmt.Errorf\<close> values of the package,
  each carrying the number its message prints: "unexpected reserved byte: %d",
  "unsupported version: %d", "invalid card count for DBF ID %d".
  \<open>Wrap err msg\<close> is \<^verbatim>\<open>errors.Wrap(err, msg)\<close>.
\<close>

datatype error =
    EOF
  | ErrUnexpectedEOF
  | CorruptInputError
  | ErrOverflow
  | UnexpectedReserved u64
  | UnsupportedVersion u64
  | InvalidCardCount u64
  | Wrap error string

text \<open>
  The deferred function of \<^verbatim>\<open>Decode\<close> and \<^verbatim>\<open>Encode\<close>: a returned error is wrapped
  with the name of the operation, a success is left alone.
\<close>

definition deferred_wrap :: "string \<Rightarrow> error + 'a \<Rightarrow> error + 'a" where
  "deferred_wrap msg r = (case r of Inl err \<Rightarrow> Inl (Wrap err msg) | Inr v \<Rightarrow> Inr v)"

section \<open>Varints (varint.go over encoding/binary)\<close>

text \<open>
  A byte source as the varint reader sees it: the bytes it will still deliver, and the
  error its \<^verbatim>\<open>ReadByte\<close> returns once they have run out (\<open>EOF\<close> for a source that
  ended well, the decoding error of the text otherwise).
\<close>

type_synonym reader = "byte list \<times> error"

definition MaxVarintLen64 :: nat where
  "MaxVarintLen64 = 10"

text \<open>
  \<^verbatim>\<open>binary.PutUvarint(buf, x)\<close>: the bytes it stores in \<^verbatim>\<open>buf[:n]\<close>.
  \<^verbatim>\<open>for x >= 0x80 { buf[i] = byte(x) | 0x80; x >>= 7; i++ }; buf[i] = byte(x)\<close>.
\<close>

function PutUvarint :: "u64 \<Rightarrow> byte list" where
  "PutUvarint x =
     (if 0x80 \<le> x then (ucast x OR 0x80) # PutUvarint (drop_bit 7 x) else [ucast x])"
  by pat_completeness auto
termination
proof (relation "measure unat")
  show "wf (measure unat)" by simp
next
  fix x :: u64
  assume "0x80 \<le> x"
  then have "128 \<le> unat x" by (simp add: word_le_nat_alt)
  then have "unat x div 128 < unat x" by simp
  then show "(drop_bit 7 x, x) \<in> measure unat"
    by (simp add: drop_bit_eq_div unat_div)
qed

declare PutUvarint.simps [simp del]

text \<open>
  \<^verbatim>\<open>binary.ReadUvarint(r)\<close>. The loop runs for \<open>i = 0, ..., MaxVarintLen64 - 1\<close>,
  with the value \<open>x\<close> read so far and the shift \<open>s\<close>; each round reads one byte. A read
  error ends it (an \<open>EOF\<close> after the first byte becomes \<open>ErrUnexpectedEOF\<close>); a byte
  below \<open>0x80\<close> ends the varint (the tenth byte may only be 0 or 1); ten bytes with the
  high bit set overflow. On success the value and the advanced source are returned;
  the partial value that Go returns beside an error is dropped.
\<close>

fun uvarint_loop :: "nat \<Rightarrow> u64 \<Rightarrow> nat \<Rightarrow> byte list \<Rightarrow> error \<Rightarrow> error + (u64 \<times> reader)" where
  "uvarint_loop i x s [] e =
     (if i < MaxVarintLen64
      then Inl (if 0 < i \<and> e = EOF then ErrUnexpectedEOF else e)
      else Inl ErrOverflow)"
| "uvarint_loop i x s (b # bs) e =
     (if i < MaxVarintLen64
      then (if b < 0x80
            then (if i = MaxVarintLen64 - 1 \<and> 1 < b then Inl ErrOverflow
                  else Inr (x OR push_bit s (ucast b), (bs, e)))
            else uvarint_loop (i + 1) (x OR push_bit s (ucast (b AND 0x7f))) (s + 7) bs e)
      else Inl ErrOverflow)"

definition ReadUvarint :: "reader \<Rightarrow> error + (u64 \<times> reader)" where
  "ReadUvarint r = uvarint_loop 0 0 0 (fst r) (snd r)"

text \<open>\<^verbatim>\<open>varintReader.Read\<close> and \<^verbatim>\<open>varintReader.ReadMany\<close>; the latter fills a
  slice of \<open>n\<close> values and stops at the first error.\<close>

definition Read :: "reader \<Rightarrow> error + (u64 \<times> reader)" where
  "Read r = ReadUvarint r"

fun ReadMany :: "nat \<Rightarrow> reader \<Rightarrow> error + (u64 list \<times> reader)" where
  "ReadMany 0 r = Inr ([], r)"
| "ReadMany (Suc n) r =
     (case ReadUvarint r of
        Inl err \<Rightarrow> Inl err
      | Inr (v, r') \<Rightarrow>
          (case ReadMany n r' of
             Inl err \<Rightarrow> Inl err
           | Inr (vs, r'') \<Rightarrow> Inr (v # vs, r'')))"

text \<open>
  \<^verbatim>\<open>varintWriter.Write\<close> and \<^verbatim>\<open>varintWriter.WriteMany\<close>. The writer is the base64
  encoder over a \<^verbatim>\<open>bytes.Buffer\<close>, whose \<^verbatim>\<open>Write\<close> never fails: it is modelled by the
  bytes written to it so far, and the error result (always nil) is left out.
\<close>

type_synonym writer = "byte list"

definition Write :: "u64 \<Rightarrow> writer \<Rightarrow> writer" where
  "Write v w = w @ PutUvarint v"

definition WriteMany :: "u64 list \<Rightarrow> writer \<Rightarrow> writer" where
  "WriteMany vs w = w @ concat (map PutUvarint vs)"

text \<open>
  The value that a sequence of varint bytes denotes in the words of the format: byte
  number \<open>k\<close> contributes its low seven bits at bit positions \<open>7k .. 7k+6\<close>.
\<close>

fun leb128_value :: "byte list \<Rightarrow> nat" where
  "leb128_value [] = 0"
| "leb128_value (b # bs) = unat (b AND 0x7f) + 128 * leb128_value bs"

section \<open>Base64 text (encoding/base64, StdEncoding)\<close>

definition encodeStd :: string where
  "encodeStd = ''ABCDEFGHIJKLMNOPQRSTUVWXYZabcdefghijklmnopqrstuvwxyz0123456789+/''"

definition padChar :: char where
  "padChar = CHR ''=''"

fun index_of :: "'a \<Rightarrow> 'a list \<Rightarrow> nat option" where
  "index_of c [] = None"
| "index_of c (x # xs) =
     (if c = x then Some 0 else (case index_of c xs of None \<Rightarrow> None | Some i \<Rightarrow> Some (Suc i)))"

text \<open>\<^verbatim>\<open>enc.encode[v]\<close> for a six-bit \<open>v\<close>, and \<^verbatim>\<open>enc.decodeMap[c]\<close>, which is
  \<open>0xff\<close> for a character outside the alphabet.\<close>

definition encode_char :: "u64 \<Rightarrow> char" where
  "encode_char v = encodeStd ! unat v"

definition decodeMap :: "char \<Rightarrow> byte" where
  "decodeMap c = (case index_of c encodeStd of None \<Rightarrow> 0xff | Some i \<Rightarrow> of_nat i)"

text \<open>
  \<^verbatim>\<open>Encoding.Encode\<close>: three bytes become four characters through a 24-bit value; a
  rest of one or two bytes is padded with \<open>=\<close>. The streaming encoder that
  \<^verbatim>\<open>base64.NewEncoder\<close> returns produces, once closed, this encoding of all the bytes
  written to it.
\<close>

fun b64_Encode :: "byte list \<Rightarrow> string" where
  "b64_Encode (a # b # c # src) =
     (let val = push_bit 16 (ucast a) OR push_bit 8 (ucast b) OR ucast c
      in encode_char (drop_bit 18 val AND 0x3F) # encode_char (drop_bit 12 val AND 0x3F)
         # encode_char (drop_bit 6 val AND 0x3F) # encode_char (val AND 0x3F) # b64_Encode src)"
| "b64_Encode [a, b] =
     (let val = push_bit 16 (ucast a) OR push_bit 8 (ucast b)
      in [encode_char (drop_bit 18 val AND 0x3F), encode_char (drop_bit 12 val AND 0x3F),
          encode_char (drop_bit 6 val AND 0x3F), padChar])"
| "b64_Encode [a] =
     (let val = push_bit 16 (ucast a)
      in [encode_char (drop_bit 18 val AND 0x3F), encode_char (drop_bit 12 val AND 0x3F),
          padChar, padChar])"
| "b64_Encode [] = []"

text \<open>
  The three bytes of a quantum of four six-bit values
  (\<^verbatim>\<open>val := dbuf[0]<<18 | dbuf[1]<<12 | dbuf[2]<<6 | dbuf[3]\<close>).
\<close>

definition quantum :: "byte \<Rightarrow> byte \<Rightarrow> byte \<Rightarrow> byte \<Rightarrow> byte list" where
  "quantum d0 d1 d2 d3 =
     (let val = push_bit 18 (ucast d0) OR push_bit 12 (ucast d1) OR push_bit 6 (ucast d2)
                OR (ucast d3 :: u64)
      in [ucast (drop_bit 16 val), ucast (drop_bit 8 val), ucast val])"

text \<open>
  \<^verbatim>\<open>Encoding.Decode\<close> on text without line breaks, quantum by quantum: the bytes
  decoded and the error, if any. Padding is accepted in the last one or two places of
  a quantum and must end the text; the bytes decoded before an error are kept.
\<close>

fun decode_quanta :: "string \<Rightarrow> byte list \<times> error option" where
  "decode_quanta (c0 # c1 # c2 # c3 # src) =
     (if decodeMap c0 = 0xff \<or> decodeMap c1 = 0xff then ([], Some CorruptInputError)
      else if decodeMap c2 = 0xff then
        (if c2 = padChar \<and> c3 = padChar
         then (take 1 (quantum (decodeMap c0) (decodeMap c1) 0 0),
               if src = [] then None else Some CorruptInputError)
         else ([], Some CorruptInputError))
      else if decodeMap c3 = 0xff then
        (if c3 = padChar
         then (take 2 (quantum (decodeMap c0) (decodeMap c1) (decodeMap c2) 0),
               if src = [] then None else Some CorruptInputError)
         else ([], Some CorruptInputError))
      else (case decode_quanta src of
              (bs, err) \<Rightarrow>
                (quantum (decodeMap c0) (decodeMap c1) (decodeMap c2) (decodeMap c3) @ bs, err)))"
| "decode_quanta [] = ([], None)"
| "decode_quanta src = ([], Some CorruptInputError)"

text \<open>
  \<^verbatim>\<open>bufio.NewReader(base64.NewDecoder(base64.StdEncoding, strings.NewReader(s)))\<close> as
  a byte source. The decoder drops carriage returns and line feeds, decodes the
  complete quanta of four characters, and delivers the bytes decoded before it
  reports an error: \<open>CorruptInputError\<close> for an ill-formed quantum,
  \<open>ErrUnexpectedEOF\<close> when one to three characters are left over, \<open>EOF\<close> otherwise.
  (The decoder works through a buffer of 1024 characters; the model is that of a text
  that fits the buffer. For a longer text it differs only when padding is followed by
  more text exactly at a buffer boundary.)
\<close>

definition NewReader :: "string \<Rightarrow> reader" where
  "NewReader s =
     (let src = filter (\<lambda>c. c \<noteq> CHR 0x0D \<and> c \<noteq> CHR 0x0A) s;
          nr = length src div 4 * 4
      in case decode_quanta (take nr src) of
           (bs, Some err) \<Rightarrow> (bs, err)
         | (bs, None) \<Rightarrow> (bs, if nr < length src then ErrUnexpectedEOF else EOF))"

section \<open>Sorting (sort.Slice)\<close>

text \<open>
  \<^verbatim>\<open>sort.Slice(x, less)\<close> rearranges the slice by calls of \<open>less\<close> and swaps alone. In
  this package \<open>less\<close> compares the \<^verbatim>\<open>uint64\<close> keys of two elements, so what the
  routine does is a function of the list of keys: the list of the old positions, in
  their new order. The routine is a parameter of the model. \<open>sorts P\<close> is what the
  library documents: the result is a rearrangement in non-decreasing key order; the
  order of elements with equal keys is not fixed.
\<close>

type_synonym sorter = "u64 list \<Rightarrow> nat list"

definition sort_Slice :: "sorter \<Rightarrow> ('a \<Rightarrow> u64) \<Rightarrow> 'a list \<Rightarrow> 'a list" where
  "sort_Slice P key xs = map (\<lambda>i. xs ! i) (P (map key xs))"

definition sorts :: "sorter \<Rightarrow> bool" where
  "sorts P = (\<forall>ks. mset (P ks) = mset [0..<length ks] \<and> sorted (map (\<lambda>i. ks ! i) (P ks)))"

text \<open>
  The routine that \<^verbatim>\<open>sort.Slice\<close> runs on a short slice, insertion sort:
  \<^verbatim>\<open>for i := a + 1; i < b; i++ { for j := i; j > a && less(j, j-1); j-- { swap(j, j-1) } }\<close>.
  (Since Go 1.19 a slice of at most twelve elements is sorted by it alone; before, it
  came after one pass that compares elements six places apart, which does nothing on
  fewer than seven elements.) It is the instance of the parameter at which concrete
  decks are evaluated below; no slice sorted there has more than six elements.
  \<open>sift ks i js\<close> moves position \<open>i\<close> down into the part already sorted, \<open>js\<close>, which
  is kept last element first.
\<close>

fun sift :: "u64 list \<Rightarrow> nat \<Rightarrow> nat list \<Rightarrow> nat list" where
  "sift ks i [] = [i]"
| "sift ks i (j # js) = (if ks ! i < ks ! j then j # sift ks i js else i # j # js)"

definition insertionSort :: sorter where
  "insertionSort ks = rev (foldl (\<lambda>js i. sift ks i js) [] [0..<length ks])"

section \<open>Decode\<close>

text \<open>
  The loop that reads the heroes,
  \<^verbatim>\<open>for i := uint64(0); i < length; i++ { hero, err := varint.Read(); ...; heroes[i] = hero }\<close>.
  (\<^verbatim>\<open>make([]uint64, length)\<close> comes first; for a length that the Go runtime cannot
  allocate it panics, which is left out of the model: there the loop fails when the
  source runs out. Where \<^verbatim>\<open>Decode\<close> returns a deck, the model returns the same deck.)
\<close>

fun read_heroes :: "nat \<Rightarrow> reader \<Rightarrow> error + (u64 list \<times> reader)" where
  "read_heroes 0 r = Inr ([], r)"
| "read_heroes (Suc n) r =
     (case Read r of
        Inl err \<Rightarrow> Inl err
      | Inr (hero, r') \<Rightarrow>
          (case read_heroes n r' of
             Inl err \<Rightarrow> Inl err
           | Inr (heroes, r'') \<Rightarrow> Inr (hero # heroes, r'')))"

text \<open>
  The inner loop over the entries of group \<open>grp\<close>: the DBF ID, and for group 3 the
  count, which is the number of the group otherwise. The card is appended to \<open>cards\<close>.
\<close>

fun read_entries :: "nat \<Rightarrow> nat \<Rightarrow> reader \<Rightarrow> card list \<Rightarrow> error + (card list \<times> reader)" where
  "read_entries grp 0 r cards = Inr (cards, r)"
| "read_entries grp (Suc n) r cards =
     (case Read r of
        Inl err \<Rightarrow> Inl err
      | Inr (dbfID, r') \<Rightarrow>
          (if 3 \<le> grp
           then (case Read r' of
                   Inl err \<Rightarrow> Inl err
                 | Inr (cnt, r'') \<Rightarrow> read_entries grp n r'' (cards @ [(dbfID, cnt)]))
           else read_entries grp n r' (cards @ [(dbfID, of_nat grp)])))"

text \<open>The outer loop, \<^verbatim>\<open>for group := 1; group <= 3; group++\<close>, over the list of groups
  still to read.\<close>

fun read_groups :: "nat list \<Rightarrow> reader \<Rightarrow> card list \<Rightarrow> error + (card list \<times> reader)" where
  "read_groups [] r cards = Inr (cards, r)"
| "read_groups (grp # groups) r cards =
     (case Read r of
        Inl err \<Rightarrow> Inl err
      | Inr (len, r') \<Rightarrow>
          (case read_entries grp (unat len) r' cards of
             Inl err \<Rightarrow> Inl err
           | Inr (cards', r'') \<Rightarrow> read_groups groups r'' cards'))"

text \<open>
  The body of \<^verbatim>\<open>Decode\<close> on the byte source \<open>r\<close>. Nothing checks that the source
  is at its end after the third group.
\<close>

definition decode_stream :: "sorter \<Rightarrow> reader \<Rightarrow> error + Deck" where
  "decode_stream P r =
     (case ReadMany 4 r of
        Inl err \<Rightarrow> Inl err
      | Inr (header, r1) \<Rightarrow>
          if header ! 0 \<noteq> 0 then Inl (UnexpectedReserved (header ! 0))
          else if header ! 1 \<noteq> Version then Inl (UnsupportedVersion (header ! 1))
          else (case read_heroes (unat (header ! 3)) r1 of
                  Inl err \<Rightarrow> Inl err
                | Inr (heroes, r2) \<Rightarrow>
                    (case read_groups [1, 2, 3] r2 [] of
                       Inl err \<Rightarrow> Inl err
                     | Inr (cards, r3) \<Rightarrow>
                         Inr \<lparr>Format = header ! 2,
                              Heroes = sort_Slice P id heroes,
                              Cards = sort_Slice P fst cards\<rparr>)))"

definition Decode :: "sorter \<Rightarrow> string \<Rightarrow> error + Deck" where
  "Decode P deckstring =
     deferred_wrap ''deckstring decode'' (decode_stream P (NewReader deckstring))"

section \<open>Encode\<close>

text \<open>
  The loop that gathers the cards into \<^verbatim>\<open>groups\<close>, a \<^verbatim>\<open>map[int][][2]uint64\<close>; it
  returns at the first card whose count is below 1. The keys are 1, 2 and 3.
\<close>

fun gather :: "(nat \<rightharpoonup> card list) \<Rightarrow> card list \<Rightarrow> error + (nat \<rightharpoonup> card list)" where
  "gather groups [] = Inr groups"
| "gather groups (c # cards) =
     (let dbfID = fst c; cnt = snd c
      in if cnt < 1 then Inl (InvalidCardCount dbfID)
         else let groupID = (if cnt < 3 then unat cnt else 3)
              in gather (case groups groupID of
                           None \<Rightarrow> groups(groupID \<mapsto> [c])
                         | Some grp \<Rightarrow> groups(groupID \<mapsto> grp @ [c])) cards)"

text \<open>The loop that writes the cards of one sorted group.\<close>

fun write_cards :: "nat \<Rightarrow> card list \<Rightarrow> writer \<Rightarrow> writer" where
  "write_cards groupID [] w = w"
| "write_cards groupID (c # grp) w =
     (let dbfID = fst c; cnt = snd c;
          w1 = Write dbfID w;
          w2 = (if groupID = 3 then Write cnt w1 else w1)
      in write_cards groupID grp w2)"

text \<open>One round of \<^verbatim>\<open>for groupID := 1; groupID <= 3; groupID++\<close>: a missing group is
  empty; the group is sorted by DBF ID, its length written, then its cards.\<close>

definition write_group :: "sorter \<Rightarrow> (nat \<rightharpoonup> card list) \<Rightarrow> writer \<Rightarrow> nat \<Rightarrow> writer" where
  "write_group P groups w groupID =
     (let grp = (case groups groupID of None \<Rightarrow> [] | Some g \<Rightarrow> g);
          sorted_group = sort_Slice P fst grp
      in write_cards groupID sorted_group (Write (of_nat (length sorted_group)) w))"

text \<open>
  The header and the heroes are written before the cards are looked at, but an error
  returns the empty string and the error: what was written is dropped.
\<close>

definition encode_stream :: "sorter \<Rightarrow> Deck \<Rightarrow> error + writer" where
  "encode_stream P deck =
     (let w0 = WriteMany [0, Version, Format deck, of_nat (length (Heroes deck))] [];
          w1 = WriteMany (sort_Slice P id (Heroes deck)) w0
      in case gather Map.empty (Cards deck) of
           Inl err \<Rightarrow> Inl err
         | Inr groups \<Rightarrow> Inr (foldl (write_group P groups) w1 [1, 2, 3]))"

definition Encode :: "sorter \<Rightarrow> Deck \<Rightarrow> error + string" where
  "Encode P deck =
     deferred_wrap ''deckstring encode''
       (case encode_stream P deck of Inl err \<Rightarrow> Inl err | Inr w \<Rightarrow> Inr (b64_Encode w))"

section \<open>The wire layout in the words of the format\<close>

text \<open>
  The layout as the format describes it, to compare \<^verbatim>\<open>Encode\<close> with: the header
  (reserved 0, version, format, number of heroes), the heroes in ascending order,
  then three groups, each its number of entries followed by the entries in ascending
  order of DBF ID. Groups 1 and 2 hold the cards with count 1 and 2 as a DBF ID alone;
  group 3 holds every other card as a DBF ID followed by its count.
\<close>

definition varints :: "u64 list \<Rightarrow> byte list" where
  "varints vs = concat (map PutUvarint vs)"

definition implicit_group :: "card list \<Rightarrow> byte list" where
  "implicit_group g = PutUvarint (of_nat (length g)) @ concat (map (\<lambda>c. PutUvarint (fst c)) g)"

definition explicit_group :: "card list \<Rightarrow> byte list" where
  "explicit_group g =
     PutUvarint (of_nat (length g)) @ concat (map (\<lambda>c. PutUvarint (fst c) @ PutUvarint (snd c)) g)"

definition wire_layout :: "sorter \<Rightarrow> Deck \<Rightarrow> byte list" where
  "wire_layout P d =
     varints [0, Version, Format d, of_nat (length (Heroes d))]
     @ varints (sort_Slice P id (Heroes d))
     @ implicit_group (sort_Slice P fst (filter (\<lambda>c. snd c = 1) (Cards d)))
     @ implicit_group (sort_Slice P fst (filter (\<lambda>c. snd c = 2) (Cards d)))
     @ explicit_group (sort_Slice P fst (filter (\<lambda>c. 3 \<le> snd c) (Cards d)))"

text \<open>
  Two names for the proofs about \<^verbatim>\<open>Encode\<close>: the key under which the gathering
  loop files a card, and the group a key stands for in \<^verbatim>\<open>groups\<close> (empty when the key
  is missing).
\<close>

definition groupID_of :: "card \<Rightarrow> nat" where
  "groupID_of c = (if snd c < 3 then unat (snd c) else 3)"

definition group_of :: "(nat \<rightharpoonup> card list) \<Rightarrow> nat \<Rightarrow> card list" where
  "group_of groups k = (case groups k of None \<Rightarrow> [] | Some g \<Rightarrow> g)"

section \<open>Properties\<close>

subsection \<open>Varints\<close>

lemma mask7: "(0x7f :: 'a::len word) = mask 7"
  by (simp add: mask_eq_exp_minus_1)

lemma split7: "(x AND 0x7f) OR push_bit 7 (drop_bit 7 x) = (x :: u64)"
  unfolding mask7
proof (rule bit_eqI)
  fix n
  show "bit (x AND mask 7 OR push_bit 7 (drop_bit 7 x)) n = bit x n"
  proof (cases "n < 7")
    case True
    then show ?thesis by (simp add: bit_simps)
  next
    case False
    then have "7 + (n - 7) = n" by simp
    with False show ?thesis by (auto simp add: bit_simps dest: bit_imp_le_length)
  qed
qed

lemma low7: "ucast ((ucast (x :: u64) OR 0x80 :: byte) AND 0x7f) = x AND 0x7f"
proof -
  have "(0x80 :: byte) AND 0x7f = 0" by simp
  then have "(ucast x OR 0x80 :: byte) AND 0x7f = ucast x AND 0x7f"
    by (simp only: bit.conj_disj_distrib2 or.right_neutral)
  moreover have "ucast (ucast x AND mask 7 :: byte) = x AND mask 7"
    by (rule bit_eqI) (auto simp: bit_simps)
  ultimately show ?thesis by (simp only: mask7)
qed

lemma high_bit_byte: "\<not> ((ucast (x :: u64) OR 0x80 :: byte) < 0x80)"
  by (simp add: not_less le_word_or1)

lemma unat_u64_mod: "unat (x::u64) mod 18446744073709551616 = unat x"
  using unsigned_less[of x, where 'a=nat] by simp

lemma unat_small:
  assumes "\<not> 0x80 \<le> (x::u64)"
  shows "unat (ucast x :: byte) = unat x"
proof -
  from assms have "unat x < 128" by (simp add: word_le_nat_alt)
  then show ?thesis by (simp add: unsigned_ucast_eq take_bit_eq_mod)
qed

lemma small_byte: "\<not> 0x80 \<le> (x::u64) \<Longrightarrow> (ucast x :: byte) < 0x80"
  by (simp add: word_less_nat_alt unat_small) (simp add: word_le_nat_alt)

lemma small_back: "\<not> 0x80 \<le> (x::u64) \<Longrightarrow> ucast (ucast x :: byte) = x"
  by (rule word_unat_eq_iff[THEN iffD2])
     (simp add: unsigned_ucast_eq[where 'c=64] unat_small take_bit_eq_mod unat_u64_mod)

lemma uvarint_loop_PutUvarint:
  "i \<le> 9 \<Longrightarrow> unat x < 2 ^ (64 - 7 * i) \<Longrightarrow>
   uvarint_loop i acc (7 * i) (PutUvarint x @ rest) e = Inr (acc OR push_bit (7 * i) x, (rest, e))"
proof (induction x arbitrary: i acc rule: PutUvarint.induct)
  case (1 x)
  show ?case
  proof (cases "0x80 \<le> x")
    case True
    then have "128 \<le> unat x" by (simp add: word_le_nat_alt)
    with 1(3) have "(2::nat) ^ 7 < 2 ^ (64 - 7 * i)" by simp
    then have "7 < 64 - 7 * i"
      using power_strict_increasing_iff[of "2::nat" 7 "64 - 7 * i"] by simp
    then have i8: "i \<le> 8" by simp
    then have "64 - 7 * i = (64 - 7 * (i + 1)) + 7" by simp
    then have "(2::nat) ^ (64 - 7 * i) = 2 ^ (64 - 7 * (i + 1)) * 128"
      by (simp only: power_add) simp
    with 1(3) have "unat x div 128 < 2 ^ (64 - 7 * (i + 1))"
      by (simp add: less_mult_imp_div_less)
    then have "unat (drop_bit 7 x) < 2 ^ (64 - 7 * (i + 1))"
      by (simp add: drop_bit_eq_div unat_div)
    with 1(1)[OF True, of "i + 1"] i8
    have IH: "\<And>acc. uvarint_loop (i + 1) acc (7 * (i + 1)) (PutUvarint (drop_bit 7 x) @ rest) e
       = Inr (acc OR push_bit (7 * (i + 1)) (drop_bit 7 x), rest, e)" by simp
    have "push_bit (7 * i) ((x AND 0x7f) OR push_bit 7 (drop_bit 7 x)) = push_bit (7 * i) x"
      by (simp only: split7)
    then have comb: "push_bit (7 * i) (x AND 0x7f) OR push_bit (7 * (i + 1)) (drop_bit 7 x)
        = push_bit (7 * i) x"
      by (simp only: push_bit_or push_bit_push_bit) (simp add: add.commute)
    have "uvarint_loop i acc (7 * i) (PutUvarint x @ rest) e
        = uvarint_loop (i + 1) (acc OR push_bit (7 * i) (x AND 0x7f)) (7 * i + 7)
            (PutUvarint (drop_bit 7 x) @ rest) e"
      using True i8 by (subst PutUvarint.simps) (simp add: MaxVarintLen64_def high_bit_byte low7)
    also have "\<dots> = Inr ((acc OR push_bit (7 * i) (x AND 0x7f))
        OR push_bit (7 * (i + 1)) (drop_bit 7 x), rest, e)"
      using IH by (simp add: algebra_simps)
    finally show ?thesis by (simp only: comb or.assoc)
  next
    case False
    have "\<not> 1 < (ucast x :: byte)" if "i = 9"
    proof -
      from that 1(3) have "unat x < 2" by simp
      then show ?thesis by (simp add: word_less_nat_alt unat_small[OF False])
    qed
    then show ?thesis using False 1(2)
      by (subst PutUvarint.simps) (auto simp add: MaxVarintLen64_def small_byte small_back)
  qed
qed

lemma ReadUvarint_PutUvarint:
  "ReadUvarint (PutUvarint v @ rest, e) = Inr (v, (rest, e))"
proof -
  have "unat v < 2 ^ (64 - 7 * 0)" using unsigned_less[of v, where 'a=nat] by simp
  with uvarint_loop_PutUvarint[of 0 v 0 rest e] show ?thesis by (simp add: ReadUvarint_def)
qed

lemma PutUvarint_not_Nil: "PutUvarint v \<noteq> []"
  by (subst PutUvarint.simps) simp

lemma unat_byte_less: "unat (b :: byte) < 256"
  using unsigned_less[of b, where 'a=nat] by simp

lemma bit7_byte: "bit (b :: byte) 7 \<longleftrightarrow> \<not> b < 0x80"
proof -
  have "bit b 7 \<longleftrightarrow> bit (unat b) 7" by (simp add: bit_unsigned_iff)
  also have "\<dots> \<longleftrightarrow> odd (unat b div 128)" by (simp add: bit_iff_odd)
  also have "\<dots> \<longleftrightarrow> 128 \<le> unat b"
  proof (cases "128 \<le> unat b")
    case True
    with unat_byte_less[of b] have "unat b div 128 = 1" by (intro div_nat_eqI) simp_all
    with True show ?thesis by simp
  next
    case False
    then show ?thesis by simp
  qed
  also have "\<dots> \<longleftrightarrow> \<not> b < 0x80" by (simp add: word_less_nat_alt not_less)
  finally show ?thesis .
qed

lemma PutUvarint_continuation: "b \<in> set (butlast (PutUvarint v)) \<Longrightarrow> bit b 7"
proof (induction v rule: PutUvarint.induct)
  case (1 x)
  show ?case
  proof (cases "0x80 \<le> x")
    case True
    have "bit (ucast x OR 0x80 :: byte) 7" by (simp add: bit7_byte high_bit_byte)
    with 1 True show ?thesis
      by (subst (asm) PutUvarint.simps) (auto simp: PutUvarint_not_Nil)
  next
    case False
    with 1(2) show ?thesis by (subst (asm) PutUvarint.simps) simp
  qed
qed

lemma PutUvarint_last: "\<not> bit (last (PutUvarint v)) 7"
proof (induction v rule: PutUvarint.induct)
  case (1 x)
  show ?case
  proof (cases "0x80 \<le> x")
    case True
    with 1 show ?thesis by (subst PutUvarint.simps) (simp add: PutUvarint_not_Nil)
  next
    case False
    then show ?thesis by (subst PutUvarint.simps) (simp add: bit7_byte small_byte)
  qed
qed

lemma PutUvarint_value: "leb128_value (PutUvarint v) = unat v"
proof (induction v rule: PutUvarint.induct)
  case (1 x)
  show ?case
  proof (cases "0x80 \<le> x")
    case True
    have "unat ((ucast x OR 0x80 :: byte) AND 0x7f) = unat (ucast ((ucast x OR 0x80 :: byte) AND 0x7f) :: u64)"
      using unat_byte_less[of "(ucast x OR 0x80) AND 0x7f"]
      by (simp add: unsigned_ucast_eq take_bit_eq_mod)
    also have "\<dots> = unat (x AND 0x7f)" by (simp only: low7)
    also have "\<dots> = unat x mod 128"
      by (simp only: mask7) (simp add: take_bit_eq_mod unat_mod_distrib flip: take_bit_eq_mask)
    finally have lo: "unat ((ucast x OR 0x80 :: byte) AND 0x7f) = unat x mod 128" .
    have hi: "unat (drop_bit 7 x) = unat x div 128" by (simp add: drop_bit_eq_div unat_div)
    from 1 True show ?thesis by (subst PutUvarint.simps) (simp add: lo hi)
  next
    case False
    then have "unat x < 128" by (simp add: word_le_nat_alt)
    moreover have "unat (ucast x AND 0x7f :: byte) = unat (ucast x :: byte) mod 128"
      by (simp only: mask7) (simp add: take_bit_eq_mod unat_mod_distrib flip: take_bit_eq_mask)
    ultimately show ?thesis using False by (subst PutUvarint.simps) (simp add: unat_small)
  qed
qed

lemma PutUvarint_last_nonzero: "v \<noteq> 0 \<Longrightarrow> last (PutUvarint v) \<noteq> 0"
proof (induction v rule: PutUvarint.induct)
  case (1 x)
  show ?case
  proof (cases "0x80 \<le> x")
    case True
    then have "128 \<le> unat x" by (simp add: word_le_nat_alt)
    then have "unat (drop_bit 7 x) \<noteq> 0" by (simp add: drop_bit_eq_div unat_div)
    then have "drop_bit 7 x \<noteq> 0" by (metis unat_0)
    with 1(1)[OF True] True show ?thesis by (subst PutUvarint.simps) (simp add: PutUvarint_not_Nil)
  next
    case False
    have "ucast x \<noteq> (0::byte)"
    proof
      assume "ucast x = (0::byte)"
      then have "ucast (ucast x :: byte) = (0::u64)" by simp
      with small_back[OF False] 1(2) show False by simp
    qed
    with False show ?thesis by (subst PutUvarint.simps) simp
  qed
qed

lemma PutUvarint_0: "PutUvarint 0 = [0]"
  by (subst PutUvarint.simps) simp

subsection \<open>Base64: decoding what was encoded\<close>

lemma mask6: "(0x3F :: 'a::len word) = mask 6"
  by (simp add: mask_eq_exp_minus_1)

lemma distinct_encodeStd: "distinct encodeStd"
  by (simp add: encodeStd_def)

lemma length_encodeStd: "length encodeStd = 64"
  by (simp add: encodeStd_def)

lemma index_of_nth: "distinct xs \<Longrightarrow> n < length xs \<Longrightarrow> index_of (xs ! n) xs = Some n"
proof (induction xs arbitrary: n)
  case Nil
  then show ?case by simp
next
  case (Cons x xs)
  then show ?case by (cases n) auto
qed

lemma unat_and_0x3F: "unat (v AND 0x3F :: u64) < 64"
proof -
  have "v AND 0x3F \<le> 0x3F" by (rule word_and_le1)
  then show ?thesis by (simp add: word_le_nat_alt)
qed

lemma decodeMap_encode_char: "decodeMap (encode_char (v AND 0x3F)) = ucast (v AND 0x3F)"
  using unat_and_0x3F[of v]
  by (simp add: decodeMap_def encode_char_def index_of_nth distinct_encodeStd length_encodeStd)

lemma ucast_6bits: "(ucast (v AND 0x3F :: u64) :: byte) \<noteq> 0xff"
proof
  assume "(ucast (v AND 0x3F :: u64) :: byte) = 0xff"
  then have "unat (ucast (v AND 0x3F :: u64) :: byte) = 255" by simp
  with unat_and_0x3F[of v] show False
    by (simp add: unsigned_ucast_eq take_bit_eq_mod)
qed

lemma ucast_6bits_back: "ucast (ucast (v AND 0x3F :: u64) :: byte) = (v AND 0x3F :: u64)"
  unfolding mask6 by (rule bit_eqI) (auto simp: bit_simps)

lemma regroup:
  fixes val :: u64
  assumes "drop_bit 24 val = 0"
  shows "push_bit 18 (drop_bit 18 val AND 0x3F) OR push_bit 12 (drop_bit 12 val AND 0x3F)
     OR push_bit 6 (drop_bit 6 val AND 0x3F) OR (val AND 0x3F) = val"
  unfolding mask6
proof (rule bit_eqI)
  fix n
  have hi: "\<not> bit val n" if "24 \<le> n"
  proof -
    from that have "bit val n = bit (drop_bit 24 val) (n - 24)" by (simp add: bit_simps)
    with assms show ?thesis by simp
  qed
  consider "n < 6" | "6 \<le> n" "n < 12" | "12 \<le> n" "n < 18" | "18 \<le> n" "n < 24" | "24 \<le> n"
    by linarith
  then show "bit (push_bit 18 (drop_bit 18 val AND mask 6) OR push_bit 12 (drop_bit 12 val AND mask 6)
     OR push_bit 6 (drop_bit 6 val AND mask 6) OR (val AND mask 6)) n = bit val n"
  proof cases
    case 1
    then show ?thesis by (simp add: bit_simps)
  next
    case 2
    then show ?thesis by (auto simp add: bit_simps)
  next
    case 3
    then show ?thesis by (auto simp add: bit_simps)
  next
    case 4
    then show ?thesis by (auto simp add: bit_simps)
  next
    case 5
    then show ?thesis using hi by (auto simp add: bit_simps)
  qed
qed

lemma bytes3:
  fixes a b c :: byte
  defines "val \<equiv> push_bit 16 (ucast a) OR push_bit 8 (ucast b) OR (ucast c :: u64)"
  shows "ucast (drop_bit 16 val) = a" "ucast (drop_bit 8 val) = b" "ucast val = c" "drop_bit 24 val = 0"
  unfolding val_def
     apply (rule bit_eqI; auto simp: bit_simps dest: bit_imp_le_length)
    apply (rule bit_eqI; auto simp: bit_simps dest: bit_imp_le_length)
   apply (rule bit_eqI; auto simp: bit_simps dest: bit_imp_le_length)
  apply (rule bit_eqI; auto simp: bit_simps dest: bit_imp_le_length)
  done

lemma quantum3:
  fixes a b c :: byte
  defines "val \<equiv> push_bit 16 (ucast a) OR push_bit 8 (ucast b) OR (ucast c :: u64)"
  shows "quantum (ucast (drop_bit 18 val AND 0x3F)) (ucast (drop_bit 12 val AND 0x3F))
           (ucast (drop_bit 6 val AND 0x3F)) (ucast (val AND 0x3F)) = [a, b, c]"
proof -
  have z: "drop_bit 24 val = 0" unfolding val_def by (rule bytes3)
  have "[ucast (drop_bit 16 val), ucast (drop_bit 8 val), ucast val] = [a, b, c]"
    unfolding val_def by (simp only: bytes3)
  then show ?thesis
    unfolding quantum_def Let_def ucast_6bits_back regroup[OF z] .
qed

lemma quantum2:
  fixes a b :: byte
  defines "val \<equiv> push_bit 16 (ucast a) OR push_bit 8 (ucast b) :: u64"
  shows "take 2 (quantum (ucast (drop_bit 18 val AND 0x3F)) (ucast (drop_bit 12 val AND 0x3F))
           (ucast (drop_bit 6 val AND 0x3F)) 0) = [a, b]"
proof -
  have v: "val = push_bit 16 (ucast a) OR push_bit 8 (ucast b) OR (ucast (0::byte) :: u64)"
    by (simp add: val_def)
  have z: "drop_bit 24 val = 0" unfolding v by (rule bytes3)
  have "val AND 0x3F = 0"
    unfolding val_def mask6 by (rule bit_eqI) (auto simp: bit_simps)
  with regroup[OF z] have r: "push_bit 18 (drop_bit 18 val AND 0x3F) OR push_bit 12 (drop_bit 12 val AND 0x3F)
     OR push_bit 6 (drop_bit 6 val AND 0x3F) OR ucast (0::byte) = val" by simp
  have "[ucast (drop_bit 16 val), ucast (drop_bit 8 val)] = [a, b]"
    unfolding v by (simp only: bytes3)
  then have "take 2 [ucast (drop_bit 16 val), ucast (drop_bit 8 val), ucast val :: byte] = [a, b]"
    by simp
  then show ?thesis
    unfolding quantum_def Let_def ucast_6bits_back r .
qed

lemma quantum1:
  fixes a :: byte
  defines "val \<equiv> push_bit 16 (ucast a) :: u64"
  shows "take 1 (quantum (ucast (drop_bit 18 val AND 0x3F)) (ucast (drop_bit 12 val AND 0x3F)) 0 0) = [a]"
proof -
  have v: "val = push_bit 16 (ucast a) OR push_bit 8 (ucast (0::byte)) OR (ucast (0::byte) :: u64)"
    by (simp add: val_def)
  have z: "drop_bit 24 val = 0" unfolding v by (rule bytes3)
  have "val AND 0x3F = 0" "drop_bit 6 val AND 0x3F = 0"
    unfolding val_def mask6 by (rule bit_eqI; auto simp: bit_simps)+
  with regroup[OF z] have r: "push_bit 18 (drop_bit 18 val AND 0x3F) OR push_bit 12 (drop_bit 12 val AND 0x3F)
       OR push_bit 6 (ucast (0::byte)) OR ucast (0::byte) = val" by simp
  have "[ucast (drop_bit 16 val)] = [a]"
    unfolding v by (simp only: bytes3)
  then have "take 1 [ucast (drop_bit 16 val), ucast (drop_bit 8 val), ucast val :: byte] = [a]"
    by simp
  then show ?thesis
    unfolding quantum_def Let_def ucast_6bits_back r .
qed

lemma decodeMap_padChar: "decodeMap padChar = 0xff"
  by (simp add: decodeMap_def padChar_def encodeStd_def)

lemma decodeMap_valid: "decodeMap (encode_char (v AND 0x3F)) \<noteq> 0xff"
  by (simp only: decodeMap_encode_char ucast_6bits not_False_eq_True)

lemma encode_char_in_alphabet: "encode_char (v AND 0x3F) \<in> set encodeStd"
  using unat_and_0x3F[of v] by (simp add: encode_char_def length_encodeStd)

lemma decode_quanta_b64_Encode: "decode_quanta (b64_Encode bs) = (bs, None)"
proof (induction bs rule: b64_Encode.induct)
  case (1 a b c src)
  define val where "val = push_bit 16 (ucast a) OR push_bit 8 (ucast b) OR (ucast c :: u64)"
  have e: "b64_Encode (a # b # c # src) =
      encode_char (drop_bit 18 val AND 0x3F) # encode_char (drop_bit 12 val AND 0x3F)
      # encode_char (drop_bit 6 val AND 0x3F) # encode_char (val AND 0x3F) # b64_Encode src"
    by (simp add: val_def Let_def)
  have q: "quantum (ucast (drop_bit 18 val AND 0x3F)) (ucast (drop_bit 12 val AND 0x3F))
           (ucast (drop_bit 6 val AND 0x3F)) (ucast (val AND 0x3F)) = [a, b, c]"
    unfolding val_def by (rule quantum3)
  show ?case unfolding e
    by (simp add: ucast_6bits decodeMap_encode_char q 1)
next
  case (2 a b)
  define val :: u64 where "val = push_bit 16 (ucast a) OR push_bit 8 (ucast b)"
  have e: "b64_Encode [a, b] =
      [encode_char (drop_bit 18 val AND 0x3F), encode_char (drop_bit 12 val AND 0x3F),
       encode_char (drop_bit 6 val AND 0x3F), padChar]"
    by (simp add: val_def Let_def)
  have q: "take 2 (quantum (ucast (drop_bit 18 val AND 0x3F)) (ucast (drop_bit 12 val AND 0x3F))
           (ucast (drop_bit 6 val AND 0x3F)) 0) = [a, b]"
    unfolding val_def by (rule quantum2)
  show ?case unfolding e using q
    by (simp add: ucast_6bits decodeMap_encode_char decodeMap_padChar)
next
  case (3 a)
  define val :: u64 where "val = push_bit 16 (ucast a)"
  have e: "b64_Encode [a] =
      [encode_char (drop_bit 18 val AND 0x3F), encode_char (drop_bit 12 val AND 0x3F),
       padChar, padChar]"
    by (simp add: val_def Let_def)
  have q: "take 1 (quantum (ucast (drop_bit 18 val AND 0x3F)) (ucast (drop_bit 12 val AND 0x3F))
           0 0) = [a]"
    unfolding val_def by (rule quantum1)
  show ?case unfolding e using q
    by (simp add: ucast_6bits decodeMap_encode_char decodeMap_padChar)
next
  case 4
  then show ?case by simp
qed

lemma length_b64_Encode: "length (b64_Encode bs) mod 4 = 0"
  by (induction bs rule: b64_Encode.induct) (simp_all add: Let_def)

lemma no_line_break: "c \<in> set (b64_Encode bs) \<Longrightarrow> c \<in> set encodeStd \<or> c = padChar"
  by (induction bs rule: b64_Encode.induct) (auto simp: Let_def encode_char_in_alphabet)

lemma filter_b64_Encode:
  "filter (\<lambda>c. c \<noteq> CHR 0x0D \<and> c \<noteq> CHR 0x0A) (b64_Encode bs) = b64_Encode bs"
proof -
  have "CHR 0x0D \<notin> set encodeStd" "CHR 0x0A \<notin> set encodeStd" "CHR 0x0D \<noteq> padChar" "CHR 0x0A \<noteq> padChar"
    by (simp_all add: encodeStd_def padChar_def)
  then have "\<forall>c \<in> set (b64_Encode bs). c \<noteq> CHR 0x0D \<and> c \<noteq> CHR 0x0A"
    using no_line_break[of _ bs] by blast
  then show ?thesis by (simp only: filter_True)
qed

lemma NewReader_b64_Encode: "NewReader (b64_Encode bs) = (bs, EOF)"
proof -
  have "length (b64_Encode bs) div 4 * 4 = length (b64_Encode bs)"
    using length_b64_Encode[of bs] by (simp add: mod_0_imp_dvd)
  then show ?thesis
    unfolding NewReader_def filter_b64_Encode Let_def
    by (simp add: decode_quanta_b64_Encode)
qed

subsection \<open>Sorting\<close>

lemma sorts_mset: "sorts P \<Longrightarrow> mset (P ks) = mset [0..<length ks]"
  by (simp add: sorts_def)

lemma sorts_set: "sorts P \<Longrightarrow> set (P ks) = {0..<length ks}"
  using sorts_mset[of P ks, THEN mset_eq_setD] by simp

lemma sort_Slice_mset:
  assumes "sorts P"
  shows "mset (sort_Slice P key xs) = mset xs"
proof -
  have "mset (sort_Slice P key xs) = image_mset (\<lambda>i. xs ! i) (mset (P (map key xs)))"
    by (simp add: sort_Slice_def)
  also have "\<dots> = image_mset (\<lambda>i. xs ! i) (mset [0..<length xs])"
    by (simp add: sorts_mset[OF assms])
  also have "\<dots> = mset (map (\<lambda>i. xs ! i) [0..<length xs])" by simp
  also have "\<dots> = mset xs" by (simp only: map_nth)
  finally show ?thesis .
qed

lemma sort_Slice_set: "sorts P \<Longrightarrow> set (sort_Slice P key xs) = set xs"
  by (rule mset_eq_setD) (rule sort_Slice_mset)

lemma sort_Slice_length: "sorts P \<Longrightarrow> length (sort_Slice P key xs) = length xs"
  using sort_Slice_mset[of P key xs, THEN mset_eq_length] by simp

lemma sort_Slice_sorted:
  assumes "sorts P"
  shows "sorted (map key (sort_Slice P key xs))"
proof -
  have "map key (sort_Slice P key xs) = map (\<lambda>i. map key xs ! i) (P (map key xs))"
    using sorts_set[OF assms, of "map key xs"] by (simp add: sort_Slice_def)
  with assms show ?thesis by (simp add: sorts_def)
qed

lemma sort_Slice_Nil: "sorts P \<Longrightarrow> sort_Slice P key [] = []"
  using sort_Slice_length[of P key "[]"] by simp

lemma sorted_by_key_unique:
  assumes "mset xs = mset ys" "sorted (map key xs)" "sorted (map key ys)" "inj_on key (set xs)"
  shows "xs = ys"
proof -
  from assms(1) have "mset (map key xs) = mset (map key ys)" by simp
  with assms(2,3) have "map key xs = map key ys"
    by (metis properties_for_sort)
  moreover from assms(1) have "set ys = set xs" by (metis mset_eq_setD)
  with assms(4) have "inj_on key (set xs \<union> set ys)" by simp
  ultimately show ?thesis by (simp add: inj_on_map_eq_map)
qed

lemma sort_Slice_id: "sorts P \<Longrightarrow> sort_Slice P id hs = sort hs"
  using sort_Slice_sorted[of P id hs] sort_Slice_mset[of P id hs]
  by (simp add: properties_for_sort)

text \<open>Insertion sort meets the contract.\<close>

lemma mset_sift: "mset (sift ks i js) = add_mset i (mset js)"
  by (induction js) auto

lemma set_sift: "set (sift ks i js) = insert i (set js)"
  by (induction js) auto

lemma sorted_sift:
  "sorted (rev (map (\<lambda>i. ks ! i) js)) \<Longrightarrow> sorted (rev (map (\<lambda>i. ks ! i) (sift ks i js)))"
proof (induction js)
  case Nil
  then show ?case by simp
next
  case (Cons j js)
  then show ?case
    by (auto simp: sorted_append set_sift)
qed

lemma mset_foldl_sift:
  "mset (foldl (\<lambda>js i. sift ks i js) acc is) = mset is + mset acc"
  by (induction "is" arbitrary: acc) (simp_all add: mset_sift)

lemma sorted_foldl_sift:
  "sorted (rev (map (\<lambda>i. ks ! i) acc)) \<Longrightarrow>
   sorted (rev (map (\<lambda>i. ks ! i) (foldl (\<lambda>js i. sift ks i js) acc is)))"
  by (induction "is" arbitrary: acc) (simp_all add: sorted_sift)

lemma sorts_insertionSort: "sorts insertionSort"
  unfolding sorts_def insertionSort_def
  using sorted_foldl_sift[of _ "[]"] by (simp add: mset_foldl_sift rev_map)

subsection \<open>Reading what was written\<close>

lemma Read_PutUvarint: "Read (PutUvarint v @ rest, e) = Inr (v, (rest, e))"
  by (simp add: Read_def ReadUvarint_PutUvarint)

lemma ReadMany_varints:
  "ReadMany (length vs) (varints vs @ rest, e) = Inr (vs, (rest, e))"
  by (induction vs) (simp_all add: varints_def ReadUvarint_PutUvarint)

lemma read_heroes_varints:
  "read_heroes (length vs) (varints vs @ rest, e) = Inr (vs, (rest, e))"
  by (induction vs) (simp_all add: varints_def Read_PutUvarint)

lemma read_entries_implicit:
  "grp < 3 \<Longrightarrow>
   read_entries grp (length g) (concat (map (\<lambda>c. PutUvarint (fst c)) g) @ rest, e) cards
     = Inr (cards @ map (\<lambda>c. (fst c, of_nat grp)) g, (rest, e))"
  by (induction g arbitrary: cards) (simp_all add: Read_PutUvarint)

lemma read_entries_explicit:
  "read_entries 3 (length g)
       (concat (map (\<lambda>c. PutUvarint (fst c) @ PutUvarint (snd c)) g) @ rest, e) cards
     = Inr (cards @ g, (rest, e))"
  by (induction g arbitrary: cards) (simp_all add: Read_PutUvarint)

lemma unat_of_nat_length: "length xs < 2 ^ 64 \<Longrightarrow> unat (of_nat (length xs) :: u64) = length xs"
  by (simp add: unat_of_nat take_bit_nat_eq_self)

lemma read_groups_layout:
  assumes "length g1 < 2 ^ 64" "length g2 < 2 ^ 64" "length g3 < 2 ^ 64"
  shows "read_groups [1, 2, 3]
           (implicit_group g1 @ implicit_group g2 @ explicit_group g3 @ rest, e) []
         = Inr (map (\<lambda>c. (fst c, 1)) g1 @ map (\<lambda>c. (fst c, 2)) g2 @ g3, (rest, e))"
  using assms
  by (simp add: implicit_group_def explicit_group_def Read_PutUvarint unat_of_nat_length
      read_entries_implicit read_entries_explicit)

lemma decode_stream_layout:
  assumes "length hs < 2 ^ 64" "length g1 < 2 ^ 64" "length g2 < 2 ^ 64" "length g3 < 2 ^ 64"
  shows "decode_stream P
           (varints [0, Version, f, of_nat (length hs)] @ varints hs
            @ implicit_group g1 @ implicit_group g2 @ explicit_group g3 @ rest, e)
         = Inr \<lparr>Format = f, Heroes = sort_Slice P id hs,
                Cards = sort_Slice P fst (map (\<lambda>c. (fst c, 1)) g1 @ map (\<lambda>c. (fst c, 2)) g2 @ g3)\<rparr>"
proof -
  have h: "ReadMany 4 (varints [0, Version, f, of_nat (length hs)] @ varints hs
            @ implicit_group g1 @ implicit_group g2 @ explicit_group g3 @ rest, e)
      = Inr ([0, Version, f, of_nat (length hs)], (varints hs
            @ implicit_group g1 @ implicit_group g2 @ explicit_group g3 @ rest, e))"
    using ReadMany_varints[of "[0, Version, f, of_nat (length hs)]"]
    by (simp only: list.size length_Cons) (simp add: eval_nat_numeral)
  show ?thesis
    unfolding decode_stream_def h
    using assms(1) read_groups_layout[OF assms(2-4), of rest e]
    by (simp add: unat_of_nat_length read_heroes_varints del: read_groups.simps)
qed

subsection \<open>What Encode writes\<close>

lemma gather_Inr:
  "find (\<lambda>c. snd c = 0) cards = None \<Longrightarrow>
   \<exists>groups'. gather groups cards = Inr groups' \<and>
     (\<forall>k. group_of groups' k = group_of groups k @ filter (\<lambda>c. groupID_of c = k) cards)"
proof (induction cards arbitrary: groups)
  case Nil
  then show ?case by simp
next
  case (Cons c cards)
  let ?k = "groupID_of c"
  let ?groups = "case groups ?k of None \<Rightarrow> groups(?k \<mapsto> [c]) | Some grp \<Rightarrow> groups(?k \<mapsto> grp @ [c])"
  from Cons.prems have c: "snd c \<noteq> 0" and rest: "find (\<lambda>c. snd c = 0) cards = None"
    by (simp_all split: if_splits)
  from Cons.IH[OF rest, of ?groups] obtain groups' where
    g: "gather ?groups cards = Inr groups'"
    and f: "\<And>k. group_of groups' k = group_of ?groups k @ filter (\<lambda>c. groupID_of c = k) cards"
    by blast
  have upd: "group_of ?groups k = group_of groups k @ (if ?k = k then [c] else [])" for k
    by (auto simp: group_of_def split: option.splits)
  have "gather groups (c # cards) = gather ?groups cards"
    using c by (cases "snd c < 3") (simp_all add: Let_def groupID_of_def cong: option.case_cong)
  with g have "gather groups (c # cards) = Inr groups'" by simp
  moreover have "group_of groups' k = group_of groups k @ filter (\<lambda>c. groupID_of c = k) (c # cards)" for k
    by (simp add: f upd)
  ultimately show ?case by blast
qed

lemma gather_Inl:
  "find (\<lambda>c. snd c = 0) cards = Some c \<Longrightarrow> gather groups cards = Inl (InvalidCardCount (fst c))"
  by (induction cards arbitrary: groups) (auto simp: Let_def split: if_splits)

lemma write_cards_eq:
  "write_cards groupID g w
     = w @ concat (map (\<lambda>c. PutUvarint (fst c) @ (if groupID = 3 then PutUvarint (snd c) else [])) g)"
  by (induction g arbitrary: w) (simp_all add: Write_def Let_def)

lemma write_group_1_2:
  "groupID \<noteq> 3 \<Longrightarrow>
   write_group P groups w groupID = w @ implicit_group (sort_Slice P fst (group_of groups groupID))"
  by (simp add: write_group_def Let_def write_cards_eq Write_def implicit_group_def group_of_def)

lemma write_group_3:
  "write_group P groups w 3 = w @ explicit_group (sort_Slice P fst (group_of groups 3))"
  by (simp add: write_group_def Let_def write_cards_eq Write_def explicit_group_def group_of_def)

lemma groupID_of_1: "snd c \<noteq> 0 \<Longrightarrow> groupID_of c = Suc 0 \<longleftrightarrow> snd c = 1"
  by (auto simp: groupID_of_def word_less_nat_alt word_unat_eq_iff)

lemma groupID_of_2: "snd c \<noteq> 0 \<Longrightarrow> groupID_of c = 2 \<longleftrightarrow> snd c = 2"
  by (auto simp: groupID_of_def word_less_nat_alt word_unat_eq_iff)

lemma groupID_of_3: "snd c \<noteq> 0 \<Longrightarrow> groupID_of c = 3 \<longleftrightarrow> 3 \<le> snd c"
  by (auto simp: groupID_of_def word_less_nat_alt word_le_nat_alt word_unat_eq_iff)

lemma no_zero_count: "find (\<lambda>c. snd c = 0) cards = None \<longleftrightarrow> (\<forall>c \<in> set cards. snd c \<noteq> (0::u64))"
  by (auto simp: find_None_iff)

lemma encode_stream_ok:
  assumes "\<forall>c \<in> set (Cards d). snd c \<noteq> 0"
  shows "encode_stream P d = Inr (wire_layout P d)"
proof -
  from assms have "find (\<lambda>c. snd c = 0) (Cards d) = None" by (simp only: no_zero_count)
  from gather_Inr[OF this, of Map.empty] obtain groups where
    g: "gather Map.empty (Cards d) = Inr groups"
    and f: "\<And>k. group_of groups k = filter (\<lambda>c. groupID_of c = k) (Cards d)"
    by (auto simp: group_of_def)
  have f1: "group_of groups (Suc 0) = filter (\<lambda>c. snd c = 1) (Cards d)"
    unfolding f using assms by (intro filter_cong refl) (simp add: groupID_of_1)
  have f2: "group_of groups 2 = filter (\<lambda>c. snd c = 2) (Cards d)"
    unfolding f using assms by (intro filter_cong refl) (simp add: groupID_of_2)
  have f3: "group_of groups 3 = filter (\<lambda>c. 3 \<le> snd c) (Cards d)"
    unfolding f using assms by (intro filter_cong refl) (simp add: groupID_of_3)
  show ?thesis
    by (simp add: encode_stream_def g Let_def write_group_1_2 write_group_3 f1 f2 f3
        wire_layout_def WriteMany_def varints_def)
qed

lemma encode_stream_error:
  assumes "find (\<lambda>c. snd c = 0) (Cards d) = Some c"
  shows "encode_stream P d = Inl (InvalidCardCount (fst c))"
  by (simp add: encode_stream_def Let_def gather_Inl[OF assms])

subsection \<open>Bytes behind the layout are not looked at\<close>

lemma uvarint_loop_append:
  "uvarint_loop i x s bs e = Inr (v, r) \<Longrightarrow>
   uvarint_loop i x s (bs @ extra) e' = Inr (v, (fst r @ extra, e'))"
  by (induction bs arbitrary: i x s) (auto split: if_splits)

lemma Read_append:
  "Read r = Inr (v, r') \<Longrightarrow> Read (fst r @ extra, e') = Inr (v, (fst r' @ extra, e'))"
  by (simp add: Read_def ReadUvarint_def uvarint_loop_append)

lemma ReadMany_append:
  "ReadMany n r = Inr (vs, r') \<Longrightarrow> ReadMany n (fst r @ extra, e') = Inr (vs, (fst r' @ extra, e'))"
proof (induction n arbitrary: r vs)
  case 0
  then show ?case by auto
next
  case (Suc n)
  from Suc.prems obtain v r1 vs1 where
    a: "ReadUvarint r = Inr (v, r1)" and b: "ReadMany n r1 = Inr (vs1, r')" and c: "vs = v # vs1"
    by (auto split: sum.splits)
  from a have "ReadUvarint (fst r @ extra, e') = Inr (v, (fst r1 @ extra, e'))"
    by (simp add: ReadUvarint_def uvarint_loop_append)
  with Suc.IH[OF b] c show ?case by simp
qed

lemma read_heroes_append:
  "read_heroes n r = Inr (vs, r') \<Longrightarrow>
   read_heroes n (fst r @ extra, e') = Inr (vs, (fst r' @ extra, e'))"
proof (induction n arbitrary: r vs)
  case 0
  then show ?case by auto
next
  case (Suc n)
  from Suc.prems obtain v r1 vs1 where
    a: "Read r = Inr (v, r1)" and b: "read_heroes n r1 = Inr (vs1, r')" and c: "vs = v # vs1"
    by (auto split: sum.splits)
  with Suc.IH[OF b] Read_append[OF a] show ?case by simp
qed

lemma read_entries_append:
  "read_entries grp n r cards = Inr (cards', r') \<Longrightarrow>
   read_entries grp n (fst r @ extra, e') cards = Inr (cards', (fst r' @ extra, e'))"
proof (induction n arbitrary: r cards)
  case 0
  then show ?case by auto
next
  case (Suc n)
  from Suc.prems obtain dbfID r1 where a: "Read r = Inr (dbfID, r1)"
    by (auto split: sum.splits)
  show ?case
  proof (cases "3 \<le> grp")
    case True
    with Suc.prems a obtain cnt r2 where b: "Read r1 = Inr (cnt, r2)"
      and c: "read_entries grp n r2 (cards @ [(dbfID, cnt)]) = Inr (cards', r')"
      by (auto split: sum.splits)
    from Suc.IH[OF c] Read_append[OF a] Read_append[OF b] True show ?thesis by simp
  next
    case False
    with Suc.prems a have c: "read_entries grp n r1 (cards @ [(dbfID, of_nat grp)]) = Inr (cards', r')"
      by simp
    from Suc.IH[OF c] Read_append[OF a] False show ?thesis by simp
  qed
qed

lemma read_groups_append:
  "read_groups gs r cards = Inr (cards', r') \<Longrightarrow>
   read_groups gs (fst r @ extra, e') cards = Inr (cards', (fst r' @ extra, e'))"
proof (induction gs arbitrary: r cards)
  case Nil
  then show ?case by auto
next
  case (Cons g gs)
  from Cons.prems obtain len r1 cards1 r2 where a: "Read r = Inr (len, r1)"
    and b: "read_entries g (unat len) r1 cards = Inr (cards1, r2)"
    and c: "read_groups gs r2 cards1 = Inr (cards', r')"
    by (auto split: sum.splits)
  from Cons.IH[OF c] Read_append[OF a] read_entries_append[OF b] show ?case by simp
qed

lemma decode_stream_append:
  assumes "decode_stream P r = Inr d"
  shows "decode_stream P (fst r @ extra, e') = Inr d"
proof -
  from assms obtain header r1 where a: "ReadMany 4 r = Inr (header, r1)"
    by (auto simp: decode_stream_def split: sum.splits)
  with assms have h: "header ! 0 = 0" "header ! 1 = Version"
    by (auto simp: decode_stream_def split: if_splits)
  with assms a obtain heroes r2 where b: "read_heroes (unat (header ! 3)) r1 = Inr (heroes, r2)"
    by (auto simp: decode_stream_def split: sum.splits)
  with assms a h obtain cards r3 where c: "read_groups [1, 2, 3] r2 [] = Inr (cards, r3)"
    by (auto simp: decode_stream_def split: sum.splits simp del: read_groups.simps)
  from assms a h b c have d: "d = \<lparr>Format = header ! 2, Heroes = sort_Slice P id heroes,
      Cards = sort_Slice P fst cards\<rparr>"
    by (simp add: decode_stream_def del: read_groups.simps)
  show ?thesis
    unfolding decode_stream_def
    using ReadMany_append[OF a, of extra e'] read_heroes_append[OF b, of extra e']
      read_groups_append[OF c, of extra e'] h d
    by (simp del: read_groups.simps)
qed

subsection \<open>Results and errors of the two operations\<close>

lemma Decode_Inr: "Decode P s = Inr d \<longleftrightarrow> decode_stream P (NewReader s) = Inr d"
  by (simp add: Decode_def deferred_wrap_def split: sum.splits)

lemma Decode_Inl:
  "decode_stream P (NewReader s) = Inl err \<Longrightarrow> Decode P s = Inl (Wrap err ''deckstring decode'')"
  by (simp add: Decode_def deferred_wrap_def)

lemma Encode_Inr_wire_layout:
  "\<forall>c \<in> set (Cards d). snd c \<noteq> 0 \<Longrightarrow> Encode P d = Inr (b64_Encode (wire_layout P d))"
  by (simp add: Encode_def deferred_wrap_def encode_stream_ok)

lemma Encode_Inl_first_zero:
  "find (\<lambda>c. snd c = 0) (Cards d) = Some c \<Longrightarrow>
   Encode P d = Inl (Wrap (InvalidCardCount (fst c)) ''deckstring encode'')"
  by (simp add: Encode_def deferred_wrap_def encode_stream_error)

lemma Encode_Inr_nonzero:
  assumes "Encode P d = Inr s"
  shows "\<forall>c \<in> set (Cards d). snd c \<noteq> 0"
proof (cases "find (\<lambda>c. snd c = 0) (Cards d)")
  case None
  then show ?thesis by (simp only: no_zero_count)
next
  case (Some c)
  from Encode_Inl_first_zero[OF this, of P] assms show ?thesis by simp
qed

subsection \<open>Decoding what Encode wrote\<close>

lemma unat_count:
  fixes x :: u64
  shows "x = 0 \<longleftrightarrow> unat x = 0" "x = 1 \<longleftrightarrow> unat x = 1" "x = 2 \<longleftrightarrow> unat x = 2"
    "3 \<le> x \<longleftrightarrow> 3 \<le> unat x" "1 \<le> x \<longleftrightarrow> 1 \<le> unat x"
  using word_unat_eq_iff[of x 0] word_unat_eq_iff[of x 1] word_unat_eq_iff[of x 2]
    word_le_nat_alt[of 3 x] word_le_nat_alt[of 1 x]
  by simp_all

lemma one_le_word: "1 \<le> (x :: u64) \<longleftrightarrow> x \<noteq> 0"
  unfolding unat_count by arith

lemma count_cases: "(x :: u64) \<noteq> 0 \<Longrightarrow> x = 1 \<or> x = 2 \<or> 3 \<le> x"
  unfolding unat_count by arith

lemma three_le_word: "3 \<le> (x :: u64) \<Longrightarrow> x \<noteq> 1 \<and> x \<noteq> 2"
  unfolding unat_count by arith

lemma mset_groups:
  "\<forall>c \<in> set cs. snd c \<noteq> (0 :: u64) \<Longrightarrow>
   mset (filter (\<lambda>c. snd c = 1) cs) + mset (filter (\<lambda>c. snd c = 2) cs)
     + mset (filter (\<lambda>c. 3 \<le> snd c) cs) = mset cs"
proof (induction cs)
  case Nil
  then show ?case by simp
next
  case (Cons c cs)
  then have "snd c \<noteq> 0" by simp
  from count_cases[OF this] three_le_word[of "snd c"] Cons show ?case by auto
qed

lemma implicit_entries:
  assumes "sorts P"
  shows "map (\<lambda>c. (fst c, k)) (sort_Slice P fst (filter (\<lambda>c. snd c = k) cs))
         = sort_Slice P fst (filter (\<lambda>c. snd c = k) cs)"
proof (rule map_idI)
  fix c
  assume "c \<in> set (sort_Slice P fst (filter (\<lambda>c. snd c = k) cs))"
  then have "c \<in> set (filter (\<lambda>c. snd c = k) cs)"
    by (simp only: sort_Slice_set[OF assms])
  then have "snd c = k" by simp
  then show "(fst c, k) = c" by (cases c) simp
qed

lemma decode_stream_wire_layout:
  assumes "sorts P" and "\<forall>c \<in> set (Cards d). snd c \<noteq> 0"
    and "length (Heroes d) < 2 ^ 64" and "length (Cards d) < 2 ^ 64"
  shows "\<exists>d'. decode_stream P (wire_layout P d @ rest, e) = Inr d'
           \<and> Format d' = Format d \<and> Heroes d' = sort (Heroes d)
           \<and> mset (Cards d') = mset (Cards d) \<and> sorted (map fst (Cards d'))"
proof -
  let ?hs = "sort_Slice P id (Heroes d)"
  let ?g1 = "sort_Slice P fst (filter (\<lambda>c. snd c = 1) (Cards d))"
  let ?g2 = "sort_Slice P fst (filter (\<lambda>c. snd c = 2) (Cards d))"
  let ?g3 = "sort_Slice P fst (filter (\<lambda>c. 3 \<le> snd c) (Cards d))"
  let ?d' = "\<lparr>Format = Format d, Heroes = sort_Slice P id ?hs,
               Cards = sort_Slice P fst (?g1 @ ?g2 @ ?g3)\<rparr>"
  have lh: "length ?hs = length (Heroes d)" by (rule sort_Slice_length[OF assms(1)])
  have len: "length ?hs < 2 ^ 64" "length ?g1 < 2 ^ 64" "length ?g2 < 2 ^ 64" "length ?g3 < 2 ^ 64"
    using assms(3,4) le_less_trans[OF length_filter_le assms(4)]
    by (simp_all only: sort_Slice_length[OF assms(1)])
  have "wire_layout P d @ rest = varints [0, Version, Format d, of_nat (length ?hs)] @ varints ?hs
            @ implicit_group ?g1 @ implicit_group ?g2 @ explicit_group ?g3 @ rest"
    by (simp add: wire_layout_def lh)
  then have "decode_stream P (wire_layout P d @ rest, e) = Inr ?d'"
    using decode_stream_layout[OF len, of P "Format d" rest e]
    by (simp only: implicit_entries[OF assms(1)])
  moreover have "Heroes ?d' = sort (Heroes d)"
    by (simp add: sort_Slice_id[OF assms(1)] sorted_sort_id)
  moreover have "mset (Cards ?d') = mset (Cards d)"
    using mset_groups[OF assms(2)] by (simp add: sort_Slice_mset[OF assms(1)] ac_simps)
  moreover have "sorted (map fst (Cards ?d'))"
    using sort_Slice_sorted[OF assms(1), of fst] by simp
  ultimately show ?thesis by simp
qed

lemma Decode_b64_wire_layout:
  assumes "sorts P" and "\<forall>c \<in> set (Cards d). snd c \<noteq> 0"
    and "length (Heroes d) < 2 ^ 64" and "length (Cards d) < 2 ^ 64"
  shows "\<exists>d'. Decode P (b64_Encode (wire_layout P d)) = Inr d'
           \<and> Format d' = Format d \<and> Heroes d' = sort (Heroes d)
           \<and> mset (Cards d') = mset (Cards d) \<and> sorted (map fst (Cards d'))"
  using decode_stream_wire_layout[OF assms, of "[]" EOF]
  by (simp add: Decode_Inr NewReader_b64_Encode)

subsection \<open>The layout depends on the deck up to rearrangement\<close>

lemma sort_mset_cong: "mset xs = mset ys \<Longrightarrow> sort xs = sort (ys :: u64 list)"
  by (metis properties_for_sort sorted_sort mset_sort)

lemma sort_Slice_filter_cong:
  assumes "sorts P" and "mset xs = mset ys" and "inj_on fst (set (filter p xs))"
  shows "sort_Slice P fst (filter p xs) = sort_Slice P fst (filter p ys)"
proof (rule sorted_by_key_unique[where key = fst])
  from assms(2) have "mset (filter p xs) = mset (filter p ys)" by (simp only: mset_filter)
  then show "mset (sort_Slice P fst (filter p xs)) = mset (sort_Slice P fst (filter p ys))"
    by (simp only: sort_Slice_mset[OF assms(1)])
  show "sorted (map fst (sort_Slice P fst (filter p xs)))"
    "sorted (map fst (sort_Slice P fst (filter p ys)))"
    by (rule sort_Slice_sorted[OF assms(1)])+
  from assms(3) show "inj_on fst (set (sort_Slice P fst (filter p xs)))"
    by (simp only: sort_Slice_set[OF assms(1)])
qed

lemma inj_on_fixed_count: "inj_on fst (set (filter (\<lambda>c. snd c = k) xs))"
  by (auto simp: inj_on_def prod_eq_iff)

lemma wire_layout_cong:
  assumes "sorts P" and "Format d1 = Format d2"
    and "mset (Heroes d1) = mset (Heroes d2)" and "mset (Cards d1) = mset (Cards d2)"
    and "inj_on fst (set (filter (\<lambda>c. 3 \<le> snd c) (Cards d1)))"
  shows "wire_layout P d1 = wire_layout P d2"
proof -
  from assms(3) have "length (Heroes d1) = length (Heroes d2)" by (rule mset_eq_length)
  moreover from sort_mset_cong[OF assms(3)]
  have "sort_Slice P id (Heroes d1) = sort_Slice P id (Heroes d2)"
    by (simp only: sort_Slice_id[OF assms(1)])
  moreover note sort_Slice_filter_cong[OF assms(1,4) inj_on_fixed_count[of 1]]
    sort_Slice_filter_cong[OF assms(1,4) inj_on_fixed_count[of 2]]
    sort_Slice_filter_cong[OF assms(1,4,5)]
  ultimately show ?thesis by (simp only: wire_layout_def assms(2))
qed

section \<open>The claims\<close>

text \<open>
  C1. For a deck whose cards all have a count of at least 1 (and whose slices have
  lengths that fit a \<^verbatim>\<open>uint64\<close>, as every Go slice does), \<^verbatim>\<open>Encode\<close> succeeds and
  \<^verbatim>\<open>Decode\<close> succeeds on its result. The deck decoded has the same format, the heroes
  in ascending order, and the same cards rearranged in ascending order of DBF ID.
  Where two cards share a DBF ID their order is left open by the claim; when the DBF
  IDs are distinct the cards are exactly the input sorted by DBF ID.
\<close>

theorem Decode_Encode:
  assumes "sorts P" and "\<forall>c \<in> set (Cards d). 1 \<le> snd c"
    and "length (Heroes d) < 2 ^ 64" and "length (Cards d) < 2 ^ 64"
  shows "\<exists>s d'. Encode P d = Inr s \<and> Decode P s = Inr d'
           \<and> Format d' = Format d \<and> Heroes d' = sort (Heroes d)
           \<and> mset (Cards d') = mset (Cards d) \<and> sorted (map fst (Cards d'))
           \<and> (distinct (map fst (Cards d)) \<longrightarrow> Cards d' = sort_key fst (Cards d))"
proof -
  from assms(2) have nz: "\<forall>c \<in> set (Cards d). snd c \<noteq> 0" by (simp only: one_le_word)
  from Decode_b64_wire_layout[OF assms(1) nz assms(3,4)] obtain d' where
    d: "Decode P (b64_Encode (wire_layout P d)) = Inr d'"
    and f: "Format d' = Format d" and h: "Heroes d' = sort (Heroes d)"
    and m: "mset (Cards d') = mset (Cards d)" and s: "sorted (map fst (Cards d'))"
    by blast
  have "Cards d' = sort_key fst (Cards d)" if "distinct (map fst (Cards d))"
  proof (rule sorted_by_key_unique[where key = fst])
    show "mset (Cards d') = mset (sort_key fst (Cards d))" by (simp add: m)
    show "sorted (map fst (Cards d'))" by (rule s)
    show "sorted (map fst (sort_key fst (Cards d)))" by (rule sorted_sort_key)
    from m have "set (Cards d') = set (Cards d)" by (rule mset_eq_setD)
    with that show "inj_on fst (set (Cards d'))" by (simp add: distinct_map)
  qed
  with Encode_Inr_wire_layout[OF nz, of P] d f h m s show ?thesis by blast
qed

theorem Decode_Encode_witness:
  "sorts insertionSort
   \<and> Encode insertionSort \<lparr>Format = 2, Heroes = [7, 3], Cards = [(9, 2), (4, 1), (6, 3), (4, 5)]\<rparr>
       = Inr ''AAECAgMHAQQBCQIEBQYD''
   \<and> Decode insertionSort ''AAECAgMHAQQBCQIEBQYD''
       = Inr \<lparr>Format = 2, Heroes = [3, 7], Cards = [(4, 1), (4, 5), (6, 3), (9, 2)]\<rparr>
   \<and> [3, 7] = sort [7, 3 :: u64]
   \<and> mset [(4, 1), (4, 5), (6, 3), (9, 2 :: u64)] = mset [(9, 2), (4, 1), (6, 3), (4 :: u64, 5)]"
proof -
  let ?d = "\<lparr>Format = 2, Heroes = [7, 3], Cards = [(9, 2), (4, 1), (6, 3), (4, 5)]\<rparr>"
  have e: "Encode insertionSort ?d = Inr ''AAECAgMHAQQBCQIEBQYD''"
    by code_simp
  have d: "Decode insertionSort ''AAECAgMHAQQBCQIEBQYD''
       = Inr \<lparr>Format = 2, Heroes = [3, 7], Cards = [(4, 1), (4, 5), (6, 3), (9, 2)]\<rparr>"
    by code_simp
  have "\<forall>c \<in> set (Cards ?d). 1 \<le> snd c" "length (Heroes ?d) < 2 ^ 64" "length (Cards ?d) < 2 ^ 64"
    by simp_all
  from Decode_Encode[OF sorts_insertionSort this] e d sorts_insertionSort
  show ?thesis by auto
qed

text \<open>
  C2 as it stands fails on the code: \<^verbatim>\<open>Decode\<close> accepts texts that \<^verbatim>\<open>Encode\<close> never
  writes. The text \<open>AAEAAgIBAAAA\<close> lists the heroes 2, 1 in this order; it decodes to
  the heroes 1, 2, and that deck encodes to another text.
\<close>

theorem Encode_Decode_counterexample:
  "Decode insertionSort ''AAEAAgIBAAAA'' = Inr \<lparr>Format = 0, Heroes = [1, 2], Cards = []\<rparr>
   \<and> Encode insertionSort \<lparr>Format = 0, Heroes = [1, 2], Cards = []\<rparr> = Inr ''AAEAAgECAAAA''
   \<and> ''AAEAAgECAAAA'' \<noteq> ''AAEAAgIBAAAA''"
  by code_simp

text \<open>
  C2, amended: on the texts that \<^verbatim>\<open>Encode\<close> writes, decoding and encoding again gives
  the text back. The deck encoded must not hold two cards with the same DBF ID and
  different counts of 3 or more, since \<^verbatim>\<open>sort.Slice\<close> may order these either way.
\<close>

theorem Encode_Decode_canonical:
  assumes "sorts P" and "Encode P d = Inr s"
    and "length (Heroes d) < 2 ^ 64" and "length (Cards d) < 2 ^ 64"
    and "inj_on fst (set (filter (\<lambda>c. 3 \<le> snd c) (Cards d)))"
  shows "\<exists>d'. Decode P s = Inr d' \<and> Encode P d' = Inr s"
proof -
  from assms(2) have nz: "\<forall>c \<in> set (Cards d). snd c \<noteq> 0" by (rule Encode_Inr_nonzero)
  from Encode_Inr_wire_layout[OF nz, of P] assms(2) have s: "s = b64_Encode (wire_layout P d)" by simp
  from Decode_b64_wire_layout[OF assms(1) nz assms(3,4)] obtain d' where
    d: "Decode P s = Inr d'"
    and f: "Format d' = Format d" and h: "Heroes d' = sort (Heroes d)"
    and m: "mset (Cards d') = mset (Cards d)"
    unfolding s by blast
  from m have se: "set (Cards d') = set (Cards d)" by (rule mset_eq_setD)
  from h have mh: "mset (Heroes d') = mset (Heroes d)" by simp
  from assms(5) se have "inj_on fst (set (filter (\<lambda>c. 3 \<le> snd c) (Cards d')))" by simp
  from wire_layout_cong[OF assms(1) f mh m this] have "wire_layout P d' = wire_layout P d" .
  moreover from nz se have "\<forall>c \<in> set (Cards d'). snd c \<noteq> 0" by simp
  ultimately have "Encode P d' = Inr s" using Encode_Inr_wire_layout[of d' P] by (simp add: s)
  with d show ?thesis by blast
qed

theorem Encode_Decode_canonical_witness:
  "sorts insertionSort
   \<and> Encode insertionSort \<lparr>Format = 2, Heroes = [7, 3], Cards = [(9, 2), (4, 1), (6, 3), (4, 5)]\<rparr>
       = Inr ''AAECAgMHAQQBCQIEBQYD''
   \<and> Decode insertionSort ''AAECAgMHAQQBCQIEBQYD''
       = Inr \<lparr>Format = 2, Heroes = [3, 7], Cards = [(4, 1), (4, 5), (6, 3), (9, 2)]\<rparr>
   \<and> Encode insertionSort \<lparr>Format = 2, Heroes = [3, 7], Cards = [(4, 1), (4, 5), (6, 3), (9, 2)]\<rparr>
       = Inr ''AAECAgMHAQQBCQIEBQYD''"
proof -
  let ?d = "\<lparr>Format = 2, Heroes = [7, 3], Cards = [(9, 2), (4, 1), (6, 3), (4, 5)]\<rparr>"
  have e: "Encode insertionSort ?d = Inr ''AAECAgMHAQQBCQIEBQYD''"
    by code_simp
  have d: "Decode insertionSort ''AAECAgMHAQQBCQIEBQYD''
       = Inr \<lparr>Format = 2, Heroes = [3, 7], Cards = [(4, 1), (4, 5), (6, 3), (9, 2)]\<rparr>"
    by code_simp
  have "length (Heroes ?d) < 2 ^ 64" "length (Cards ?d) < 2 ^ 64"
    "inj_on fst (set (filter (\<lambda>c. 3 \<le> snd c) (Cards ?d)))"
    by (simp_all add: word_le_nat_alt)
  from Encode_Decode_canonical[OF sorts_insertionSort e this] d sorts_insertionSort e
  show ?thesis by auto
qed

text \<open>
  C3 does not hold of the code: an entry of group 3 carries its count in the stream,
  and \<^verbatim>\<open>Decode\<close> takes it as it comes. The payload of \<open>AAEAAAAAAQUA\<close> has one entry in
  group 3, DBF ID 5 with count 0; \<^verbatim>\<open>Decode\<close> returns it, and \<^verbatim>\<open>Encode\<close> refuses the
  deck that \<^verbatim>\<open>Decode\<close> returned.
\<close>

theorem Decode_zero_count:
  "NewReader ''AAEAAAAAAQUA'' = ([0, 1, 0, 0, 0, 0, 1, 5, 0], EOF)
   \<and> Decode insertionSort ''AAEAAAAAAQUA'' = Inr \<lparr>Format = 0, Heroes = [], Cards = [(5, 0)]\<rparr>
   \<and> Encode insertionSort \<lparr>Format = 0, Heroes = [], Cards = [(5, 0)]\<rparr>
       = Inl (Wrap (InvalidCardCount 5) ''deckstring encode'')"
  by code_simp

text \<open>
  C4. \<^verbatim>\<open>Encode\<close> returns an error exactly when some card of the deck has count 0. The
  error is then the invalid-card-count error for the DBF ID of the first such card in
  \<^verbatim>\<open>deck.Cards\<close>, wrapped as "deckstring encode"; being an error, it comes with no
  deckstring.
\<close>

theorem Encode_error_iff_zero_count:
  "((\<exists>err. Encode P d = Inl err) \<longleftrightarrow> (\<exists>c \<in> set (Cards d). snd c = 0))
   \<and> (\<forall>c. find (\<lambda>c. snd c = 0) (Cards d) = Some c \<longrightarrow>
          Encode P d = Inl (Wrap (InvalidCardCount (fst c)) ''deckstring encode''))"
proof (cases "find (\<lambda>c. snd c = 0) (Cards d)")
  case None
  then have "\<forall>c \<in> set (Cards d). snd c \<noteq> 0" by (simp only: no_zero_count)
  with Encode_Inr_wire_layout[OF this, of P] None show ?thesis by auto
next
  case (Some c)
  then have "c \<in> set (Cards d)" "snd c = 0"
    by (auto simp: find_Some_iff)
  with Encode_Inl_first_zero[OF Some, of P] Some show ?thesis by auto
qed

theorem Encode_error_iff_zero_count_witness:
  "find (\<lambda>c. snd c = 0) [(10, 1), (20, 2), (30, 0), (40, 0 :: u64)] = Some (30, 0)
   \<and> Encode insertionSort \<lparr>Format = 0, Heroes = [], Cards = [(10, 1), (20, 2), (30, 0), (40, 0)]\<rparr>
       = Inl (Wrap (InvalidCardCount 30) ''deckstring encode'')"
proof -
  have f: "find (\<lambda>c. snd c = 0) [(10, 1), (20, 2), (30, 0), (40, 0 :: u64)] = Some (30, 0)"
    by simp
  with Encode_error_iff_zero_count[of insertionSort
      "\<lparr>Format = 0, Heroes = [], Cards = [(10, 1), (20, 2), (30, 0), (40, 0)]\<rparr>"]
  show ?thesis by simp
qed

text \<open>
  C5 as it stands fails on the code in two ways. The error names the first card with
  count 0 in the order given, so two orders of the same cards can give two errors.
  And the cards of a group are ordered by DBF ID alone: two cards with the same DBF ID
  and different counts of 3 or more are written in the order in which insertion sort,
  which is what \<^verbatim>\<open>sort.Slice\<close> runs on a short slice, leaves them, that of the input.
\<close>

theorem Encode_order_counterexample:
  "mset [(1, 0), (2, 0 :: u64)] = mset [(2, 0), (1 :: u64, 0)]
   \<and> Encode insertionSort \<lparr>Format = 0, Heroes = [], Cards = [(1, 0), (2, 0)]\<rparr>
       = Inl (Wrap (InvalidCardCount 1) ''deckstring encode'')
   \<and> Encode insertionSort \<lparr>Format = 0, Heroes = [], Cards = [(2, 0), (1, 0)]\<rparr>
       = Inl (Wrap (InvalidCardCount 2) ''deckstring encode'')
   \<and> mset [(5, 3), (5, 4 :: u64)] = mset [(5, 4), (5 :: u64, 3)]
   \<and> Encode insertionSort \<lparr>Format = 0, Heroes = [], Cards = [(5, 3), (5, 4)]\<rparr>
       = Inr ''AAEAAAAAAgUDBQQ=''
   \<and> Encode insertionSort \<lparr>Format = 0, Heroes = [], Cards = [(5, 4), (5, 3)]\<rparr>
       = Inr ''AAEAAAAAAgUEBQM=''"
proof -
  have "Encode insertionSort \<lparr>Format = 0, Heroes = [], Cards = [(1, 0), (2, 0)]\<rparr>
       = Inl (Wrap (InvalidCardCount 1) ''deckstring encode'')"
    by code_simp
  moreover have "Encode insertionSort \<lparr>Format = 0, Heroes = [], Cards = [(2, 0), (1, 0)]\<rparr>
       = Inl (Wrap (InvalidCardCount 2) ''deckstring encode'')"
    by code_simp
  moreover have "Encode insertionSort \<lparr>Format = 0, Heroes = [], Cards = [(5, 3), (5, 4)]\<rparr>
       = Inr ''AAEAAAAAAgUDBQQ=''"
    by code_simp
  moreover have "Encode insertionSort \<lparr>Format = 0, Heroes = [], Cards = [(5, 4), (5, 3)]\<rparr>
       = Inr ''AAEAAAAAAgUEBQM=''"
    by code_simp
  ultimately show ?thesis by simp
qed

text \<open>
  C5, amended. Two decks with the same format, the same heroes in any order and the
  same cards in any order either both fail to encode, each with the invalid-card-count
  error of a card with count 0 (not always the same card), or both encode; and the two
  texts are equal when no two cards with counts of 3 or more share a DBF ID with
  different counts.
\<close>

theorem Encode_order_independent:
  assumes "sorts P" and "Format d2 = Format d1"
    and "mset (Heroes d2) = mset (Heroes d1)" and "mset (Cards d2) = mset (Cards d1)"
  shows "(\<exists>c1 c2. c1 \<in> set (Cards d1) \<and> snd c1 = 0 \<and> c2 \<in> set (Cards d1) \<and> snd c2 = 0
            \<and> Encode P d1 = Inl (Wrap (InvalidCardCount (fst c1)) ''deckstring encode'')
            \<and> Encode P d2 = Inl (Wrap (InvalidCardCount (fst c2)) ''deckstring encode''))
         \<or> (\<exists>s1 s2. Encode P d1 = Inr s1 \<and> Encode P d2 = Inr s2
            \<and> (inj_on fst (set (filter (\<lambda>c. 3 \<le> snd c) (Cards d1))) \<longrightarrow> s1 = s2))"
proof -
  from assms(4) have se: "set (Cards d2) = set (Cards d1)" by (rule mset_eq_setD)
  show ?thesis
  proof (cases "find (\<lambda>c. snd c = 0) (Cards d1)")
    case None
    then have nz1: "\<forall>c \<in> set (Cards d1). snd c \<noteq> 0" by (simp only: no_zero_count)
    with se have nz2: "\<forall>c \<in> set (Cards d2). snd c \<noteq> 0" by simp
    have "wire_layout P d1 = wire_layout P d2"
      if "inj_on fst (set (filter (\<lambda>c. 3 \<le> snd c) (Cards d1)))"
      using wire_layout_cong[OF assms(1) assms(2)[symmetric] assms(3)[symmetric]
          assms(4)[symmetric] that] .
    with Encode_Inr_wire_layout[OF nz1, of P] Encode_Inr_wire_layout[OF nz2, of P] show ?thesis by simp
  next
    case (Some c1)
    then have c1: "c1 \<in> set (Cards d1)" "snd c1 = 0" by (auto simp: find_Some_iff)
    with se have "\<not> (\<forall>c \<in> set (Cards d2). snd c \<noteq> 0)" by auto
    then obtain c2 where f2: "find (\<lambda>c. snd c = 0) (Cards d2) = Some c2"
      by (auto simp only: no_zero_count[symmetric])
    then have "c2 \<in> set (Cards d2)" "snd c2 = 0" by (auto simp: find_Some_iff)
    with se have c2: "c2 \<in> set (Cards d1)" "snd c2 = 0" by simp_all
    from Encode_Inl_first_zero[OF Some, of P] Encode_Inl_first_zero[OF f2, of P] c1 c2 show ?thesis by blast
  qed
qed

theorem Encode_order_independent_witness:
  "sorts insertionSort
   \<and> mset [7, 3 :: u64] = mset [3, 7]
   \<and> mset [(9, 2), (4, 1), (6, 3), (4 :: u64, 5 :: u64)] = mset [(4, 5), (6, 3), (4, 1), (9, 2)]
   \<and> Encode insertionSort \<lparr>Format = 2, Heroes = [7, 3], Cards = [(9, 2), (4, 1), (6, 3), (4, 5)]\<rparr>
       = Inr ''AAECAgMHAQQBCQIEBQYD''
   \<and> Encode insertionSort \<lparr>Format = 2, Heroes = [3, 7], Cards = [(4, 5), (6, 3), (4, 1), (9, 2)]\<rparr>
       = Inr ''AAECAgMHAQQBCQIEBQYD''"
proof -
  let ?d1 = "\<lparr>Format = 2, Heroes = [7, 3], Cards = [(9, 2), (4, 1), (6, 3), (4, 5)]\<rparr>"
  let ?d2 = "\<lparr>Format = 2, Heroes = [3, 7], Cards = [(4, 5), (6, 3), (4, 1), (9, 2)]\<rparr>"
  have e: "Encode insertionSort ?d1 = Inr ''AAECAgMHAQQBCQIEBQYD''"
    by code_simp
  have m: "Format ?d2 = Format ?d1" "mset (Heroes ?d2) = mset (Heroes ?d1)"
    "mset (Cards ?d2) = mset (Cards ?d1)"
    by simp_all
  have i: "inj_on fst (set (filter (\<lambda>c. 3 \<le> snd c) (Cards ?d1)))"
    by (simp add: word_le_nat_alt)
  from Encode_order_independent[OF sorts_insertionSort m] e i m sorts_insertionSort
  show ?thesis by auto
qed

text \<open>
  C6. Whenever \<^verbatim>\<open>Decode\<close> succeeds, the heroes of the deck it returns are in
  non-decreasing order and its cards are in non-decreasing order of DBF ID, whatever
  the order in the input. (This holds for every sorting routine that meets the
  contract of \<^verbatim>\<open>sort.Slice\<close>.)
\<close>

theorem Decode_sorted:
  assumes "sorts P" "Decode P s = Inr d"
  shows "sorted (Heroes d) \<and> sorted (map fst (Cards d))"
proof -
  from assms(2) have "decode_stream P (NewReader s) = Inr d" by (simp only: Decode_Inr)
  then obtain f heroes cards where
    d: "d = \<lparr>Format = f, Heroes = sort_Slice P id heroes, Cards = sort_Slice P fst cards\<rparr>"
    by (auto simp: decode_stream_def split: sum.splits if_splits simp del: read_groups.simps)
  from sort_Slice_sorted[OF assms(1), of id heroes] sort_Slice_sorted[OF assms(1), of fst cards]
  show ?thesis by (simp add: d)
qed

theorem Decode_sorted_witness:
  "Decode insertionSort ''AAEAAgIBAwMCAQAA''
     = Inr \<lparr>Format = 0, Heroes = [1, 2], Cards = [(1, 1), (2, 1), (3, 1)]\<rparr>
   \<and> sorted [1, 2 :: u64] \<and> sorted (map fst [(1, 1), (2, 1), (3, 1 :: u64)] :: u64 list)"
proof -
  have D: "Decode insertionSort ''AAEAAgIBAwMCAQAA''
     = Inr \<lparr>Format = 0, Heroes = [1, 2], Cards = [(1, 1), (2, 1), (3, 1)]\<rparr>"
    by code_simp
  from Decode_sorted[OF sorts_insertionSort D] D show ?thesis by simp
qed

text \<open>
  C7 as it stands fails on the code, on a text that ends inside the header:
  \<^verbatim>\<open>Decode\<close> reads all four varints of the header before it looks at any of them.
  The first varint of \<open>BAAA\<close> is 4, and \<^verbatim>\<open>Decode\<close> returns the end-of-file error of
  the fourth read, not the unexpected-reserved error. The payload of \<open>AABB\<close>, the input
  of the repository's TestDecodeInvalidVersion, starts with reserved 0 and version 0,
  and the error is again that of the fourth read, not the unsupported-version error.
\<close>

theorem Decode_header_checks_counterexample:
  "NewReader ''BAAA'' = ([4, 0, 0], EOF)
   \<and> Read (NewReader ''BAAA'') = Inr (4, ([0, 0], EOF))
   \<and> Decode insertionSort ''BAAA'' = Inl (Wrap EOF ''deckstring decode'')
   \<and> Decode insertionSort ''BAAA'' \<noteq> Inl (Wrap (UnexpectedReserved 4) ''deckstring decode'')
   \<and> NewReader ''AABB'' = ([0, 0, 0x41], EOF)
   \<and> ReadMany 2 (NewReader ''AABB'') = Inr ([0, 0], ([0x41], EOF))
   \<and> Decode insertionSort ''AABB'' = Inl (Wrap EOF ''deckstring decode'')
   \<and> Decode insertionSort ''AABB'' \<noteq> Inl (Wrap (UnsupportedVersion 0) ''deckstring decode'')"
  by code_simp

text \<open>
  C7, amended. Once the four varints of the header are read: a reserved field other
  than 0 gives the unexpected-reserved error; otherwise a version other than
  \<open>Version\<close>, which is 1, gives the unsupported-version error; both wrapped as
  "deckstring decode", and no deck is returned. When the header cannot be read, the
  error of the read is returned instead, wrapped the same way.
\<close>

theorem Decode_header_checks:
  "(\<forall>header r. ReadMany 4 (NewReader s) = Inr (header, r) \<longrightarrow>
      (header ! 0 \<noteq> 0 \<longrightarrow>
         Decode P s = Inl (Wrap (UnexpectedReserved (header ! 0)) ''deckstring decode''))
      \<and> (header ! 0 = 0 \<and> header ! 1 \<noteq> Version \<longrightarrow>
         Decode P s = Inl (Wrap (UnsupportedVersion (header ! 1)) ''deckstring decode'')))
   \<and> (\<forall>err. ReadMany 4 (NewReader s) = Inl err \<longrightarrow>
         Decode P s = Inl (Wrap err ''deckstring decode''))
   \<and> Version = 1"
  by (simp add: Decode_def deferred_wrap_def decode_stream_def Version_def)

theorem Decode_header_checks_witness:
  "ReadMany 4 (NewReader ''BAAAAA=='') = Inr ([4, 0, 0, 0], ([], EOF))
   \<and> Decode insertionSort ''BAAAAA==''
       = Inl (Wrap (UnexpectedReserved 4) ''deckstring decode'')
   \<and> ReadMany 4 (NewReader ''AAIAAA=='') = Inr ([0, 2, 0, 0], ([], EOF))
   \<and> Decode insertionSort ''AAIAAA==''
       = Inl (Wrap (UnsupportedVersion 2) ''deckstring decode'')"
proof -
  have a: "ReadMany 4 (NewReader ''BAAAAA=='') = Inr ([4, 0, 0, 0], ([], EOF))"
    by code_simp
  have b: "ReadMany 4 (NewReader ''AAIAAA=='') = Inr ([0, 2, 0, 0], ([], EOF))"
    by code_simp
  from Decode_header_checks[of "''BAAAAA==''" insertionSort]
       Decode_header_checks[of "''AAIAAA==''" insertionSort] a b
  show ?thesis by (simp add: Version_def)
qed

text \<open>
  C8. What \<^verbatim>\<open>varintWriter.Write\<close> appends for a value \<open>v\<close> is its little-endian
  base-128 encoding: at least one byte, the high bit set on every byte but the last
  and clear on the last, the low seven bits of the bytes making up \<open>v\<close> from the least
  significant group on, no zero group at the end unless the encoding is a single byte,
  and 0 written as the single byte 0. \<^verbatim>\<open>varintReader.Read\<close> on a source that starts
  with these bytes returns \<open>v\<close> and leaves the source just behind them.
\<close>

theorem varint_write_read:
  "PutUvarint v \<noteq> []
   \<and> (\<forall>b \<in> set (butlast (Write v [])). bit b 7)
   \<and> \<not> bit (last (Write v [])) 7
   \<and> leb128_value (Write v []) = unat v
   \<and> (length (Write v []) = 1 \<or> last (Write v []) \<noteq> 0)
   \<and> Write 0 [] = [0]
   \<and> Write v w = w @ Write v []
   \<and> Read (Write v [] @ rest, e) = Inr (v, (rest, e))"
proof -
  have "length (PutUvarint v) = 1 \<or> last (PutUvarint v) \<noteq> 0"
  proof (cases "v = 0")
    case True
    then show ?thesis by (simp add: PutUvarint_0)
  next
    case False
    then show ?thesis by (simp add: PutUvarint_last_nonzero)
  qed
  then show ?thesis
    by (simp add: Write_def Read_def PutUvarint_not_Nil PutUvarint_continuation PutUvarint_last
        PutUvarint_value PutUvarint_0 ReadUvarint_PutUvarint)
qed

theorem varint_write_read_witness:
  "Write 300 [] = [0xAC, 0x02]
   \<and> bit (0xAC :: byte) 7 \<and> \<not> bit (0x02 :: byte) 7
   \<and> leb128_value [0xAC, 0x02] = 300
   \<and> Read ([0xAC, 0x02, 0x07], EOF) = Inr (300, ([0x07], EOF))"
proof -
  have W: "Write 300 [] = [0xAC, 0x02]" by code_simp
  show ?thesis using varint_write_read[of 300 "[]" "[0x07]" EOF] unfolding W by simp
qed

text \<open>
  C9. \<^verbatim>\<open>Encode\<close> files every card by the value of its count alone. When no count is
  0, the text it returns is the base64 form of the layout of the format: the cards
  with count 1 in group 1 and those with count 2 in group 2, each written as its DBF
  ID alone, and every card with a count of 3 or more in group 3, written as its DBF ID
  followed by its count. When some count is 0, it returns an error.
\<close>

theorem Encode_groups_by_count:
  "((\<forall>c \<in> set (Cards d). snd c \<noteq> 0) \<longrightarrow> Encode P d = Inr (b64_Encode (wire_layout P d)))
   \<and> ((\<exists>c \<in> set (Cards d). snd c = 0) \<longrightarrow> (\<exists>err. Encode P d = Inl err))"
proof (cases "find (\<lambda>c. snd c = 0) (Cards d)")
  case None
  then have "\<forall>c \<in> set (Cards d). snd c \<noteq> 0" by (simp only: no_zero_count)
  with Encode_Inr_wire_layout[OF this, of P] show ?thesis by auto
next
  case (Some c)
  then have "c \<in> set (Cards d)" "snd c = 0"
    by (auto simp: find_Some_iff)
  with Encode_Inl_first_zero[OF Some, of P] show ?thesis by auto
qed

theorem Encode_groups_by_count_witness:
  "wire_layout insertionSort
      \<lparr>Format = 0, Heroes = [], Cards = [(7, 100), (5, 2), (8, 1000), (4, 1), (6, 3), (3, 2)]\<rparr>
     = [0, 1, 0, 0,  1, 4,  2, 3, 5,  3, 6, 3, 7, 100, 8, 0xE8, 0x07]
   \<and> Encode insertionSort
      \<lparr>Format = 0, Heroes = [], Cards = [(7, 100), (5, 2), (8, 1000), (4, 1), (6, 3), (3, 2)]\<rparr>
     = Inr ''AAEAAAEEAgMFAwYDB2QI6Ac=''"
proof -
  let ?d = "\<lparr>Format = 0, Heroes = [],
      Cards = [(7, 100), (5, 2), (8, 1000), (4, 1), (6, 3), (3, 2)] :: card list\<rparr>"
  have l: "wire_layout insertionSort ?d
     = [0, 1, 0, 0,  1, 4,  2, 3, 5,  3, 6, 3, 7, 100, 8, 0xE8, 0x07]"
    by code_simp
  have b: "b64_Encode [0, 1, 0, 0,  1, 4,  2, 3, 5,  3, 6, 3, 7, 100, 8, 0xE8, 0x07]
     = ''AAEAAAEEAgMFAwYDB2QI6Ac=''"
    by code_simp
  have "\<forall>c \<in> set (Cards ?d). snd c \<noteq> 0" by simp
  with Encode_groups_by_count[of ?d insertionSort] show ?thesis
    by (simp only: l b simp_thms)
qed

text \<open>
  C10. \<^verbatim>\<open>Decode\<close> does not ask for the end of the payload. Whenever it succeeds on a
  text, it returns the same deck on every text whose payload is the payload of the
  first followed by more bytes, however that longer payload ends.
\<close>

theorem Decode_ignores_trailing_bytes:
  assumes "Decode P s = Inr d"
    and "fst (NewReader s') = fst (NewReader s) @ extra"
  shows "Decode P s' = Inr d"
proof -
  from assms(1) have "decode_stream P (NewReader s) = Inr d" by (simp only: Decode_Inr)
  from decode_stream_append[OF this, of extra "snd (NewReader s')"] assms(2)
  have "decode_stream P (NewReader s') = Inr d"
    by (metis prod.collapse)
  then show ?thesis by (simp only: Decode_Inr)
qed

theorem Decode_ignores_trailing_bytes_witness:
  "Decode insertionSort ''AAEAAQcAAAEJAw=='' = Inr \<lparr>Format = 0, Heroes = [7], Cards = [(9, 3)]\<rparr>
   \<and> NewReader ''AAEAAQcAAAEJAw=='' = ([0, 1, 0, 1, 7, 0, 0, 1, 9, 3], EOF)
   \<and> NewReader ''AAEAAQcAAAEJA///'' = ([0, 1, 0, 1, 7, 0, 0, 1, 9, 3] @ [0xFF, 0xFF], EOF)
   \<and> Decode insertionSort ''AAEAAQcAAAEJA///'' = Inr \<lparr>Format = 0, Heroes = [7], Cards = [(9, 3)]\<rparr>"
proof -
  have a: "Decode insertionSort ''AAEAAQcAAAEJAw=='' = Inr \<lparr>Format = 0, Heroes = [7], Cards = [(9, 3)]\<rparr>"
    by code_simp
  have b: "NewReader ''AAEAAQcAAAEJAw=='' = ([0, 1, 0, 1, 7, 0, 0, 1, 9, 3], EOF)"
    by code_simp
  have c: "NewReader ''AAEAAQcAAAEJA///'' = ([0, 1, 0, 1, 7, 0, 0, 1, 9, 3] @ [0xFF, 0xFF], EOF)"
    by code_simp
  from Decode_ignores_trailing_bytes[OF a, of "''AAEAAQcAAAEJA///''" "[0xFF, 0xFF]"] a b c
  show ?thesis by simp
qed

end
